theory Spec2Isabelle
  imports Main
begin

section \<open>Data model of \<open>src/core/cm_utils.ts\<close>\<close>

text \<open>
  The token seeker and the range expander of HyperMD: \<open>TokenSeeker.setPos\<close>,
  \<open>TokenSeeker.findNext\<close> and \<open>expandRange\<close>, embedded as functions on explicit state.

  A token is the triple \<open>{start, end, type}\<close> that the editor's tokenizer produces;
  \<open>type\<close> is a string or \<open>null\<close>. Character offsets and line numbers are JavaScript
  numbers that hold integers; they are modelled as \<open>int\<close>. Array indices that the code
  only ever counts upwards from 0 are \<open>nat\<close>. The field \<open>end\<close> of a token is \<open>end_ch\<close>
  here, the fields \<open>from\<close> and \<open>to\<close> of a range are \<open>from_pos\<close> and \<open>to_pos\<close>, and the
  field \<open>line\<close> of the seeker is \<open>line_handle\<close> (\<open>line\<close> is the field of a position).
\<close>

record token =
  start :: int
  end_ch :: int
  type :: "string option"

record position =
  line :: int
  ch :: int

record range =
  from_pos :: position
  to_pos :: position

text \<open>
  The ways a call can fail. \<open>TypeError\<close> is what JavaScript raises when a property of
  \<open>undefined\<close> is read, \<open>SyntaxError\<close> what \<open>new RegExp\<close> raises for a source that is not a
  regular expression. \<open>UnsupportedPattern\<close> marks a regular expression that uses a
  construct outside the part of the engine modelled below.
\<close>

datatype error = TypeError | SyntaxError | UnsupportedPattern

text \<open>
  The host editor is not part of this file; the code uses four of its operations, taken
  here as a parameter: \<open>getLineHandle\<close> (\<open>None\<close> is the \<open>undefined\<close> that the editor
  answers for a number that is not a line of the document), the handle's own
  \<open>lineNo()\<close>, \<open>getLineTokens\<close> and \<open>lastLine\<close>. Handles are compared by identity
  (\<open>===\<close>), so any type with equality serves as the type of handles.
\<close>

record 'h editor =
  getLineHandle :: "int \<Rightarrow> 'h option"
  handle_lineNo :: "'h \<Rightarrow> int"
  getLineTokens :: "int \<Rightarrow> token list"
  lastLine :: int

text \<open>
  The four fields of a \<open>TokenSeeker\<close>. The constructor assigns none of them: \<open>line\<close> and
  \<open>lineTokens\<close> are \<open>undefined\<close> (\<open>None\<close>) until the first \<open>setPos\<close>. Every path of
  \<open>setPos\<close> and \<open>findNext\<close> reads \<open>lineTokens\<close> (and fails on \<open>undefined\<close>) before the
  value of \<open>lineNo\<close> or \<open>i_token\<close> can influence anything, so those two carry 0
  in a seeker that was never positioned.
\<close>

record 'h seeker =
  line_handle :: "'h option"
  lineNo :: int
  lineTokens :: "token list option"
  i_token :: nat

definition new_TokenSeeker :: "'h seeker" where
  "new_TokenSeeker = \<lparr>line_handle = None, lineNo = 0, lineTokens = None, i_token = 0\<rparr>"

text \<open>The object \<open>{lineNo, token, i_token}\<close> that \<open>findNext\<close> returns.\<close>

record found =
  found_lineNo :: int
  found_token :: token
  found_i_token :: nat

section \<open>The scanning loop\<close>

text \<open>
  Every forward loop of the file has the shape
  \<^verbatim>\<open>for (; i < tokens.length; i++) { if (stop(tokens[i])) break }\<close>
  and leaves \<open>i\<close> as its result: the first index from \<open>i\<close> on whose token satisfies the
  test, \<open>tokens.length\<close> when there is none, and \<open>i\<close> itself when \<open>i\<close> is already past
  the end.
\<close>

function seek :: "(token \<Rightarrow> bool) \<Rightarrow> token list \<Rightarrow> nat \<Rightarrow> nat" where
  "seek stop tokens i =
     (if i < length tokens
      then (if stop (tokens ! i) then i else seek stop tokens (Suc i))
      else i)"
  by pat_completeness auto
termination
  by (relation "measure (\<lambda>(stop, tokens, i). length tokens - i)") auto

declare seek.simps [simp del]

section \<open>\<open>TokenSeeker.setPos\<close>\<close>

text \<open>
  The first argument of \<open>setPos\<close>: left out (\<open>setPos(ch)\<close>, the current line is reused),
  a line number, or a line handle.
\<close>

datatype 'h line_arg = Current | LineNumber int | Handle 'h

text \<open>
  The line that the call is about (lines 124 and 125): the tracked one when only \<open>ch\<close> is
  given, what the editor answers for a line number (\<open>undefined\<close> outside the document),
  or the handle passed.
\<close>

definition resolve :: "'h editor \<Rightarrow> 'h line_arg \<Rightarrow> 'h seeker \<Rightarrow> 'h option" where
  "resolve cm line_arg this =
     (case line_arg of
        Current \<Rightarrow> line_handle this
      | LineNumber n \<Rightarrow> getLineHandle cm n
      | Handle h \<Rightarrow> Some h)"

text \<open>
  A call returns normally (\<open>Inr ()\<close>) or raises, and in both cases leaves the seeker in
  the state returned as second component: the assignments made before the exception
  stay. The refetch branch (lines 131 to 133) assigns \<open>this.line\<close> and then fails on
  \<open>line.lineNo()\<close> when the line is \<open>undefined\<close>; the speed-up branch (lines 136 to 138) reads \<open>this.lineTokens[i_token].start\<close>
  and fails when \<open>lineTokens\<close> is \<open>undefined\<close> or \<open>i_token\<close> is not an index of it.
\<close>

definition setPos ::
  "'h editor \<Rightarrow> 'h line_arg \<Rightarrow> int \<Rightarrow> bool \<Rightarrow> 'h seeker \<Rightarrow> (error + unit) \<times> 'h seeker" where
  "setPos cm line_arg c precise this =
     (let l = resolve cm line_arg this;
          sameLine = (l = line_handle this)
      in if precise \<or> \<not> sameLine then
           (case l of
              None \<Rightarrow> (Inl TypeError, this\<lparr>line_handle := None\<rparr>)
            | Some h \<Rightarrow>
                let n = handle_lineNo cm h;
                    tokens = getLineTokens cm n
                in (Inr (),
                    this\<lparr>line_handle := Some h, lineNo := n, lineTokens := Some tokens,
                         i_token := seek (\<lambda>t. end_ch t > c) tokens 0\<rparr>))
         else
           (case lineTokens this of
              None \<Rightarrow> (Inl TypeError, this)
            | Some tokens \<Rightarrow>
                if i_token this < length tokens then
                  let i0 = (if start (tokens ! i_token this) > c then 0 else i_token this)
                  in (Inr (), this\<lparr>i_token := seek (\<lambda>t. end_ch t > c) tokens i0\<rparr>)
                else (Inl TypeError, this)))"

section \<open>\<open>TokenSeeker.findNext\<close>\<close>

text \<open>
  The condition is a regular expression tested against \<open>token.type\<close>, or a function of
  the token. A regular expression enters as the predicate on strings that its \<open>test\<close>
  computes; \<open>test(null)\<close> tests the string \<open>"null"\<close>. A function is applied to
  \<open>tokens[i]\<close>, which is \<open>undefined\<close> (\<open>None\<close>) for an index that is not in the array.
  Conditions are pure: they neither raise nor touch the seeker.
\<close>

datatype condition = RegExp "string \<Rightarrow> bool" | Func "token option \<Rightarrow> bool"

definition to_string :: "string option \<Rightarrow> string" where
  "to_string ty = (case ty of None \<Rightarrow> ''null'' | Some s \<Rightarrow> s)"

text \<open>The test of line 80 (and 102) on a token of the array.\<close>

fun holds :: "condition \<Rightarrow> token \<Rightarrow> bool" where
  "holds (Func f) t = f (Some t)"
| "holds (RegExp re) t = re (to_string (type t))"

text \<open>
  \<open>tokens[i]\<close> for a number \<open>i\<close>, and the test of line 80 on it: a function is called
  with whatever \<open>tokens[i]\<close> is, a regular expression reads \<open>token_tmp.type\<close> first and
  so raises on \<open>undefined\<close>.
\<close>

definition token_at :: "token list \<Rightarrow> int \<Rightarrow> token option" where
  "token_at tokens i = (if 0 \<le> i \<and> i < int (length tokens) then Some (tokens ! nat i) else None)"

fun cond_at :: "condition \<Rightarrow> token option \<Rightarrow> error + bool" where
  "cond_at (Func f) t = Inr (f t)"
| "cond_at (RegExp re) None = Inl TypeError"
| "cond_at (RegExp re) (Some t) = Inr (re (to_string (type t)))"

text \<open>
  The loop of lines 78 to 84 on the current line. Its index is the number \<open>i_token\<close>,
  which an explicit \<open>i_token_since\<close> can make negative. The loop ends with the index it
  reached and the value of \<open>token\<close>: the element that passed the test (\<open>undefined\<close> when a
  function accepts \<open>undefined\<close>), or \<open>null\<close> when the index ran past the end.
\<close>

function scan_line :: "condition \<Rightarrow> token list \<Rightarrow> int \<Rightarrow> error + int \<times> token option" where
  "scan_line cond tokens i =
     (if i < int (length tokens) then
        (case cond_at cond (token_at tokens i) of
           Inl e \<Rightarrow> Inl e
         | Inr b \<Rightarrow> if b then Inr (i, token_at tokens i) else scan_line cond tokens (i + 1))
      else Inr (i, None))"
  by pat_completeness auto
termination
  by (relation "measure (\<lambda>(cond, tokens, i). nat (int (length tokens) - i))") auto

declare scan_line.simps [simp del]

text \<open>
  The second argument \<open>varg\<close>: left out, a boolean (\<open>maySpanLines\<close>) or a number
  (\<open>i_token_since\<close>).
\<close>

datatype varg = Omitted | Flag bool | Index int

text \<open>
  The local variables of \<open>findNext\<close> that the \<open>eachLine\<close> callback assigns. \<open>s_fetched\<close>
  is not in the source: it records, in order, the line numbers passed to
  \<open>cm.getLineTokens\<close>, so that statements about which lines are fetched can be made.
\<close>

record scan =
  s_lineNo :: int
  s_tokens :: "token list"
  s_i_token :: int
  s_token :: "token option"
  s_fetched :: "int list"

text \<open>
  Modelled from the spec: the editor's \<open>eachLine(from, to, visitor)\<close>, which is not in
  this file. It "iterates in increasing line order; if the visitor returns a truthy value,
  iteration stops immediately", over the lines of the document with numbers
  \<open>from \<le> n < to\<close>. The visitor is a state transformer on the variables it closes over.
\<close>

fun eachLine_list :: "'h editor \<Rightarrow> int list \<Rightarrow> ('h \<Rightarrow> 'a \<Rightarrow> bool \<times> 'a) \<Rightarrow> 'a \<Rightarrow> 'a" where
  "eachLine_list cm [] visitor st = st"
| "eachLine_list cm (n # ns) visitor st =
     (case getLineHandle cm n of
        None \<Rightarrow> eachLine_list cm ns visitor st
      | Some h \<Rightarrow>
          (case visitor h st of
             (stop, st') \<Rightarrow> if stop then st' else eachLine_list cm ns visitor st'))"

definition eachLine :: "'h editor \<Rightarrow> int \<Rightarrow> int \<Rightarrow> ('h \<Rightarrow> 'a \<Rightarrow> bool \<times> 'a) \<Rightarrow> 'a \<Rightarrow> 'a" where
  "eachLine cm from_line to_line visitor st = eachLine_list cm [from_line..to_line - 1] visitor st"

text \<open>
  Where the scan of a line fetched by the callback starts (lines 93 to 98): at 0, or on the
  line of \<open>since\<close> at the first token with \<open>start >= since.ch\<close>.
\<close>

definition since_index :: "position option \<Rightarrow> int \<Rightarrow> token list \<Rightarrow> nat" where
  "since_index since n tokens =
     (case since of
        None \<Rightarrow> 0
      | Some p \<Rightarrow> if n = line p then seek (\<lambda>t. start t \<ge> ch p) tokens 0 else 0)"

text \<open>The callback that \<open>findNext\<close> passes to \<open>eachLine\<close> (lines 89 to 107).\<close>

definition visitLine :: "'h editor \<Rightarrow> condition \<Rightarrow> position option \<Rightarrow> 'h \<Rightarrow> scan \<Rightarrow> bool \<times> scan" where
  "visitLine cm cond since line_i st =
     (let n = handle_lineNo cm line_i;
          tokens = getLineTokens cm n;
          i = seek (holds cond) tokens (since_index since n tokens);
          st' = st\<lparr>s_lineNo := n, s_tokens := tokens, s_i_token := int i,
                   s_fetched := s_fetched st @ [n]\<rparr>
      in if i < length tokens then (True, st'\<lparr>s_token := Some (tokens ! i)\<rparr>)
         else (False, st'))"

text \<open>
  The index at which the scan of the current line starts, after the \<open>varg\<close> and \<open>since\<close>
  blocks (lines 57 to 76). The loop of lines 72 to 74 reads \<open>tokens[i_token].start\<close>; with a
  negative index its guard \<open>i_token < tokens.length\<close> holds and the read raises. Without
  a \<open>since\<close>, or with one on an earlier line, a negative index reaches the loop of line 78
  as it is.
\<close>

definition start_index :: "varg \<Rightarrow> position option \<Rightarrow> int \<Rightarrow> token list \<Rightarrow> nat \<Rightarrow> error + int" where
  "start_index varg since n tokens i_cur =
     (let i_token = (case varg of Index k \<Rightarrow> k | _ \<Rightarrow> int i_cur + 1)
      in case since of
           None \<Rightarrow> Inr i_token
         | Some p \<Rightarrow>
             if line p > n then Inr (int (length tokens))
             else if line p < n then Inr i_token
             else if i_token < 0 then Inl TypeError
             else Inr (int (seek (\<lambda>t. start t \<ge> ch p) tokens (nat i_token))))"

text \<open>
  \<open>findNext\<close> returns its result (or the exception), the lines it fetched, and the
  seeker as the call leaves it. The result is \<open>null\<close> when \<open>token\<close> is \<open>null\<close> or
  \<open>undefined\<close>; a token that was found sits at an index of its array, so the index
  returned is not negative.
\<close>

definition findNext ::
  "'h editor \<Rightarrow> condition \<Rightarrow> varg \<Rightarrow> position option \<Rightarrow> 'h seeker
     \<Rightarrow> (error + found option) \<times> int list \<times> 'h seeker" where
  "findNext cm cond varg since this =
     (case lineTokens this of
        None \<Rightarrow> (Inl TypeError, [], this)
      | Some tokens \<Rightarrow>
          (case start_index varg since (lineNo this) tokens (i_token this) of
             Inl e \<Rightarrow> (Inl e, [], this)
           | Inr i1 \<Rightarrow>
               (case scan_line cond tokens i1 of
                  Inl e \<Rightarrow> (Inl e, [], this)
                | Inr (i, token) \<Rightarrow>
                    let maySpanLines = (varg = Flag True);
                        st = \<lparr>s_lineNo = lineNo this, s_tokens = tokens, s_i_token = i,
                              s_token = token, s_fetched = []\<rparr>;
                        startLine =
                          max (case since of None \<Rightarrow> 0 | Some p \<Rightarrow> line p) (lineNo this + 1);
                        st' = (if s_token st = None \<and> maySpanLines
                               then eachLine cm startLine (lastLine cm + 1)
                                      (visitLine cm cond since) st
                               else st)
                    in ((case s_token st' of
                           None \<Rightarrow> Inr None
                         | Some t \<Rightarrow> Inr (Some \<lparr>found_lineNo = s_lineNo st', found_token = t,
                                                found_i_token = nat (s_i_token st')\<rparr>)),
                        s_fetched st', this))))"

section \<open>\<open>expandRange\<close>\<close>

text \<open>
  \<open>expandRange\<close> builds \<^verbatim>\<open>new RegExp("(?:^|\\s)" + style + "(?:\\s|$)")\<close>: the
  style is pasted into the source of the pattern as it is. The regular-expression engine
  is not part of the repository. It is modelled here for patterns without flags, on
  strings of 8-bit characters: a parser for the source and a matcher for \<open>test\<close>.

  The syntax covered: characters that stand for themselves (\<^verbatim>\<open>]\<close>,
  \<^verbatim>\<open>}\<close> and a \<^verbatim>\<open>{\<close> that no digit follows among them), \<^verbatim>\<open>.\<close>, the
  quantifiers \<^verbatim>\<open>*\<close>, \<^verbatim>\<open>+\<close>, \<^verbatim>\<open>?\<close> and their lazy forms, alternation,
  groups \<^verbatim>\<open>( )\<close> and \<^verbatim>\<open>(?: )\<close>, the assertions \<^verbatim>\<open>^\<close>, \<^verbatim>\<open>$\<close>,
  \<^verbatim>\<open>\b\<close>, \<^verbatim>\<open>\B\<close>, the escapes \<^verbatim>\<open>\d \D \s \S \w \W \t \n \v \f \r\<close>, the
  escape of any other character but a digit and \<^verbatim>\<open>c x u k\<close> as that character, and
  classes \<^verbatim>\<open>[ ]\<close> of characters and ranges without escapes. A source that breaks
  the grammar (an open group or class, a stray \<^verbatim>\<open>)\<close>, nothing to repeat, a range
  out of order, a \<^verbatim>\<open>\\<close> at the end) is a \<open>SyntaxError\<close>. Look-around and named
  groups, back references, the escapes \<^verbatim>\<open>\c \x \u \k\<close> and of digits, escapes
  inside classes, and a \<^verbatim>\<open>{\<close> before a digit are answered with
  \<open>UnsupportedPattern\<close>.
\<close>

definition is_space :: "char \<Rightarrow> bool" where
  "is_space c = (of_char c \<in> {9, 10, 11, 12, 13, 32, 160 :: nat})"

definition is_digit :: "char \<Rightarrow> bool" where
  "is_digit c = (48 \<le> (of_char c :: nat) \<and> (of_char c :: nat) \<le> 57)"

definition is_word :: "char \<Rightarrow> bool" where
  "is_word c =
     (let n = (of_char c :: nat)
      in (48 \<le> n \<and> n \<le> 57) \<or> (65 \<le> n \<and> n \<le> 90) \<or> (97 \<le> n \<and> n \<le> 122) \<or> n = 95)"

definition is_line_terminator :: "char \<Rightarrow> bool" where
  "is_line_terminator c = (of_char c \<in> {10, 13 :: nat})"

text \<open>
  The abstract syntax: a set of characters, the assertions, the empty pattern, sequence,
  alternative and repetition. \<open>r+\<close> is \<open>r\<close> followed by \<open>r*\<close> and \<open>r?\<close> is \<open>r\<close> or empty; a
  group is its body (\<open>test\<close> does not report captures).
\<close>

datatype regex =
    Sym "char \<Rightarrow> bool"
  | Bol
  | Eol
  | Boundary bool
  | Eps
  | Seq regex regex
  | Alt regex regex
  | Star regex

text \<open>
  The matcher works on the rest of the subject together with the character before it
  (none at the start of the subject), which the assertions need. \<open>match r s k\<close>: some way
  of matching \<open>r\<close> at \<open>s\<close> leaves a rest that \<open>k\<close> accepts. Whether a match exists does not
  depend on the order in which the engine tries the ways, so greedy and lazy quantifiers
  test alike. A repetition takes an iteration only if it consumes a character, as the
  engine does, and so needs at most as many iterations as the rest is long.
\<close>

type_synonym subject = "char option \<times> string"

definition at_boundary :: "subject \<Rightarrow> bool" where
  "at_boundary s =
     ((case fst s of None \<Rightarrow> False | Some c \<Rightarrow> is_word c) \<noteq>
      (case snd s of [] \<Rightarrow> False | c # cs \<Rightarrow> is_word c))"

fun star_iter ::
  "(subject \<Rightarrow> (subject \<Rightarrow> bool) \<Rightarrow> bool) \<Rightarrow> nat \<Rightarrow> subject \<Rightarrow> (subject \<Rightarrow> bool) \<Rightarrow> bool" where
  "star_iter m 0 s k = k s"
| "star_iter m (Suc n) s k =
     (k s \<or> m s (\<lambda>s'. length (snd s') < length (snd s) \<and> star_iter m n s' k))"

primrec match :: "regex \<Rightarrow> subject \<Rightarrow> (subject \<Rightarrow> bool) \<Rightarrow> bool" where
  "match (Sym p) s k = (case snd s of [] \<Rightarrow> False | c # cs \<Rightarrow> p c \<and> k (Some c, cs))"
| "match Bol s k = (fst s = None \<and> k s)"
| "match Eol s k = (snd s = [] \<and> k s)"
| "match (Boundary b) s k = (at_boundary s = b \<and> k s)"
| "match Eps s k = k s"
| "match (Seq r1 r2) s k = match r1 s (\<lambda>s'. match r2 s' k)"
| "match (Alt r1 r2) s k = (match r1 s k \<or> match r2 s k)"
| "match (Star r) s k = star_iter (match r) (length (snd s)) s k"

text \<open>\<open>test\<close> without flags: a match may start at any position of the subject.\<close>

fun test_from :: "regex \<Rightarrow> char option \<Rightarrow> string \<Rightarrow> bool" where
  "test_from r prev [] = match r (prev, []) (\<lambda>s. True)"
| "test_from r prev (c # cs) = (match r (prev, c # cs) (\<lambda>s. True) \<or> test_from r (Some c) cs)"

definition test :: "regex \<Rightarrow> string \<Rightarrow> bool" where
  "test r s = test_from r None s"

text \<open>
  The parser reads the source from left to right. It keeps the groups that are open
  (for each, the alternatives and the terms read before it was opened), the finished
  alternatives of the innermost group, the terms of the current alternative (the last
  one first), whether a quantifier may follow (\<open>Atom\<close>), has just been read
  (\<open>Quantified\<close>: only a lazy \<^verbatim>\<open>?\<close> may follow) or has nothing to repeat
  (\<open>NoAtom\<close>), and, inside a class, whether the class is negated and the characters
  collected so far.
\<close>

datatype quant = NoAtom | Atom | Quantified

definition seq_of :: "regex list \<Rightarrow> regex" where
  "seq_of terms = fold Seq terms Eps"

definition close :: "regex list \<Rightarrow> regex list \<Rightarrow> regex" where
  "close alts terms = fold Alt alts (seq_of terms)"

definition quantify :: "char \<Rightarrow> regex \<Rightarrow> regex" where
  "quantify c r =
     (if c = CHR ''*'' then Star r
      else if c = CHR ''+'' then Seq r (Star r)
      else Alt r Eps)"

definition escape :: "char \<Rightarrow> error + regex" where
  "escape e =
     (if e = CHR ''d'' then Inr (Sym is_digit)
      else if e = CHR ''D'' then Inr (Sym (\<lambda>x. \<not> is_digit x))
      else if e = CHR ''s'' then Inr (Sym is_space)
      else if e = CHR ''S'' then Inr (Sym (\<lambda>x. \<not> is_space x))
      else if e = CHR ''w'' then Inr (Sym is_word)
      else if e = CHR ''W'' then Inr (Sym (\<lambda>x. \<not> is_word x))
      else if e = CHR ''b'' then Inr (Boundary True)
      else if e = CHR ''B'' then Inr (Boundary False)
      else if e = CHR ''t'' then Inr (Sym (\<lambda>x. x = CHR 0x09))
      else if e = CHR ''n'' then Inr (Sym (\<lambda>x. x = CHR 0x0A))
      else if e = CHR ''v'' then Inr (Sym (\<lambda>x. x = CHR 0x0B))
      else if e = CHR ''f'' then Inr (Sym (\<lambda>x. x = CHR 0x0C))
      else if e = CHR ''r'' then Inr (Sym (\<lambda>x. x = CHR 0x0D))
      else if is_digit e \<or> e \<in> set ''cxuk'' then Inl UnsupportedPattern
      else Inr (Sym (\<lambda>x. x = e)))"

fun parse ::
  "(regex list \<times> regex list) list \<Rightarrow> regex list \<Rightarrow> regex list \<Rightarrow> quant
     \<Rightarrow> (bool \<times> (char \<Rightarrow> bool)) option \<Rightarrow> string \<Rightarrow> error + regex" where
  "parse stack alts terms q cls [] =
     (if stack = [] \<and> cls = None then Inr (close alts terms) else Inl SyntaxError)"
| "parse stack alts terms q (Some (neg, p)) (c # cs) =
     (if c = CHR '']'' then parse stack alts (Sym (\<lambda>x. p x \<noteq> neg) # terms) Atom None cs
      else if c = CHR 0x5C then Inl UnsupportedPattern
      else
        (case cs of
           d # e # cs' \<Rightarrow>
             if d = CHR ''-'' \<and> e \<noteq> CHR '']'' then
               (if e = CHR 0x5C then Inl UnsupportedPattern
                else if (of_char c :: nat) \<le> of_char e
                then parse stack alts terms q
                       (Some (neg, \<lambda>x. p x \<or> ((of_char c :: nat) \<le> of_char x \<and> (of_char x :: nat) \<le> of_char e)))
                       cs'
                else Inl SyntaxError)
             else parse stack alts terms q (Some (neg, \<lambda>x. p x \<or> x = c)) cs
         | _ \<Rightarrow> parse stack alts terms q (Some (neg, \<lambda>x. p x \<or> x = c)) cs))"
| "parse stack alts terms q None (c # cs) =
     (if c = CHR ''('' then
        (case cs of
           x # y # cs' \<Rightarrow>
             if x = CHR ''?'' then
               (if y = CHR '':'' then parse ((alts, terms) # stack) [] [] NoAtom None cs'
                else if y \<in> set ''=!<'' then Inl UnsupportedPattern
                else Inl SyntaxError)
             else parse ((alts, terms) # stack) [] [] NoAtom None cs
         | _ \<Rightarrow> parse ((alts, terms) # stack) [] [] NoAtom None cs)
      else if c = CHR '')'' then
        (case stack of
           [] \<Rightarrow> Inl SyntaxError
         | (alts', terms') # stack' \<Rightarrow> parse stack' alts' (close alts terms # terms') Atom None cs)
      else if c = CHR ''|'' then parse stack (seq_of terms # alts) [] NoAtom None cs
      else if c = CHR ''*'' \<or> c = CHR ''+'' \<or> c = CHR ''?'' then
        (case q of
           Atom \<Rightarrow>
             (case terms of
                [] \<Rightarrow> Inl SyntaxError
              | t # ts \<Rightarrow> parse stack alts (quantify c t # ts) Quantified None cs)
         | Quantified \<Rightarrow>
             if c = CHR ''?'' then parse stack alts terms NoAtom None cs else Inl SyntaxError
         | NoAtom \<Rightarrow> Inl SyntaxError)
      else if c = CHR ''^'' then parse stack alts (Bol # terms) NoAtom None cs
      else if c = CHR ''$'' then parse stack alts (Eol # terms) NoAtom None cs
      else if c = CHR ''.'' then
        parse stack alts (Sym (\<lambda>x. \<not> is_line_terminator x) # terms) Atom None cs
      else if c = CHR 0x5C then
        (case cs of
           [] \<Rightarrow> Inl SyntaxError
         | e # cs' \<Rightarrow>
             (case escape e of
                Inl err \<Rightarrow> Inl err
              | Inr t \<Rightarrow>
                  parse stack alts (t # terms)
                    (if e = CHR ''b'' \<or> e = CHR ''B'' then NoAtom else Atom) None cs'))
      else if c = CHR ''['' then
        (case cs of
           x # cs' \<Rightarrow>
             if x = CHR ''^'' then parse stack alts terms q (Some (True, \<lambda>x. False)) cs'
             else parse stack alts terms q (Some (False, \<lambda>x. False)) cs
         | [] \<Rightarrow> Inl SyntaxError)
      else if c = CHR ''{'' \<and> (case cs of [] \<Rightarrow> False | d # cs' \<Rightarrow> is_digit d) then
        Inl UnsupportedPattern
      else parse stack alts (Sym (\<lambda>x. x = c) # terms) Atom None cs)"

text \<open>\<open>new RegExp(source)\<close>, as the predicate that its \<open>test\<close> computes.\<close>

definition new_RegExp :: "string \<Rightarrow> error + (string \<Rightarrow> bool)" where
  "new_RegExp source =
     (case parse [] [] [] NoAtom None source of
        Inl e \<Rightarrow> Inl e
      | Inr r \<Rightarrow> Inr (test r))"

text \<open>The source that line 196 builds, and the regular expression \<open>styleRE\<close>.\<close>

definition style_pattern :: "string \<Rightarrow> string" where
  "style_pattern style =
     ''(?:^|'' @ [CHR 0x5C] @ ''s)'' @ style @ ''(?:'' @ [CHR 0x5C] @ ''s|$)''"

definition styleRE :: "string \<Rightarrow> error + (string \<Rightarrow> bool)" where
  "styleRE style = new_RegExp (style_pattern style)"

text \<open>\<open>styleRE.test(token.type)\<close>; a \<open>null\<close> type is tested as the string \<open>"null"\<close>.\<close>

definition test_type :: "(string \<Rightarrow> bool) \<Rightarrow> token \<Rightarrow> bool" where
  "test_type re t = re (to_string (type t))"

text \<open>The second loop (lines 205 to 209): \<open>to.ch\<close> moves right over matching tokens.\<close>

function extend_right :: "(token \<Rightarrow> bool) \<Rightarrow> token list \<Rightarrow> nat \<Rightarrow> int \<Rightarrow> int" where
  "extend_right matches tokens i to_ch =
     (if i < length tokens
      then (if matches (tokens ! i)
            then extend_right matches tokens (Suc i) (end_ch (tokens ! i))
            else to_ch)
      else to_ch)"
  by pat_completeness auto
termination
  by (relation "measure (\<lambda>(matches, tokens, i, to_ch). length tokens - i)") auto

declare extend_right.simps [simp del]

text \<open>
  The third loop (lines 211 to 217) walks from \<open>iSince\<close> down to 0 and stops at the first
  token that does not match; \<open>from.ch\<close> becomes that token's end, and keeps its initial
  value otherwise. The loop runs only with \<open>iSince < tokens.length\<close>.
\<close>

fun extend_left :: "(token \<Rightarrow> bool) \<Rightarrow> token list \<Rightarrow> nat \<Rightarrow> int \<Rightarrow> int" where
  "extend_left matches tokens 0 from_ch =
     (if \<not> matches (tokens ! 0) then end_ch (tokens ! 0) else from_ch)"
| "extend_left matches tokens (Suc i) from_ch =
     (if \<not> matches (tokens ! Suc i) then end_ch (tokens ! Suc i)
      else extend_left matches tokens i from_ch)"

definition expandRange :: "'h editor \<Rightarrow> position \<Rightarrow> string \<Rightarrow> error + range option" where
  "expandRange cm pos style =
     (case styleRE style of
        Inl e \<Rightarrow> Inl e
      | Inr re \<Rightarrow>
          let tokens = getLineTokens cm (line pos);
              iSince = seek (\<lambda>t. end_ch t \<ge> ch pos) tokens 0
          in if iSince = length tokens then Inr None
             else Inr (Some
               \<lparr>from_pos = \<lparr>line = line pos, ch = extend_left (test_type re) tokens iSince 0\<rparr>,
                to_pos = \<lparr>line = line pos,
                           ch = extend_right (test_type re) tokens iSince (ch pos)\<rparr>\<rparr>))"

section \<open>Notions used in the statements\<close>

text \<open>
  The tokenizer contract of the spec: the tokens of a line are contiguous, do not overlap
  and cover the line from offset 0, left to right. \<open>contiguous_from a tokens\<close> says that
  the tokens form such a chain starting at offset \<open>a\<close>.
\<close>

fun contiguous_from :: "int \<Rightarrow> token list \<Rightarrow> bool" where
  "contiguous_from a [] = True"
| "contiguous_from a (t # ts) = (start t = a \<and> a \<le> end_ch t \<and> contiguous_from (end_ch t) ts)"

definition covers :: "token list \<Rightarrow> int \<Rightarrow> bool" where
  "covers tokens lineLength =
     (contiguous_from 0 tokens \<and> lineLength = (if tokens = [] then 0 else end_ch (last tokens)))"

definition tokenizer_contract :: "'h editor \<Rightarrow> bool" where
  "tokenizer_contract cm = (\<forall>n. contiguous_from 0 (getLineTokens cm n))"

text \<open>
  The seeker states that the class itself can produce: a new seeker, and whatever
  \<open>setPos\<close> and \<open>findNext\<close> leave behind, against any state of an editor that honours the
  tokenizer contract.
\<close>

inductive reachable :: "'h seeker \<Rightarrow> bool" where
  new: "reachable new_TokenSeeker"
| setPos: "reachable s \<Longrightarrow> tokenizer_contract cm \<Longrightarrow> reachable (snd (setPos cm a c precise s))"
| findNext: "reachable s \<Longrightarrow> reachable (snd (snd (findNext cm cond varg since s)))"

text \<open>
  Line \<open>n\<close> is a line of the document, and its handle reports the number \<open>n\<close>.
\<close>

definition own_number :: "'h editor \<Rightarrow> int \<Rightarrow> bool" where
  "own_number cm n =
     (case getLineHandle cm n of None \<Rightarrow> False | Some h \<Rightarrow> handle_lineNo cm h = n)"

text \<open>
  The index at which the scan of line \<open>n\<close> stops when the callback visits it: the first
  match from the line's starting index, or an index past the end.
\<close>

definition match_index :: "'h editor \<Rightarrow> condition \<Rightarrow> position option \<Rightarrow> int \<Rightarrow> nat" where
  "match_index cm cond since n =
     seek (holds cond) (getLineTokens cm n) (since_index since n (getLineTokens cm n))"

text \<open>
  A token type read as a set of tags: the maximal runs of characters that are not white
  space.
\<close>

function tags :: "string \<Rightarrow> string list" where
  "tags [] = []"
| "tags (c # cs) =
     (if is_space c then tags cs
      else (c # takeWhile (\<lambda>x. \<not> is_space x) cs) # tags (dropWhile (\<lambda>x. \<not> is_space x) cs))"
  by pat_completeness auto
termination
  by (relation "measure length") (auto simp: le_imp_less_Suc length_dropWhile_le)

text \<open>
  A plain tag: a non-empty string without white space and without the characters
  \<^verbatim>\<open>\ ^ $ . * + ? ( ) [ ] { } |\<close> that have a meaning in a regular expression.
\<close>

definition syntax_chars :: string where
  "syntax_chars = CHR 0x5C # ''^$.*+?()[]{}|''"

definition is_tag :: "string \<Rightarrow> bool" where
  "is_tag style =
     (style \<noteq> [] \<and> list_all (\<lambda>c. c \<notin> set syntax_chars \<and> \<not> is_space c) style)"

text \<open>
  What the pattern of \<open>expandRange\<close> asks of a subject when \<open>style\<close> stands for itself:
  \<open>style\<close> occurs in it, after the start of the subject or a white-space character
  (the flag of \<open>style_from\<close> tells whether the rest read begins the subject), and before a
  white-space character or the end of the subject.
\<close>

fun ends_here :: "string \<Rightarrow> bool" where
  "ends_here [] = True"
| "ends_here (c # cs) = is_space c"

fun style_here :: "string \<Rightarrow> string \<Rightarrow> bool" where
  "style_here [] s = ends_here s"
| "style_here (p # ps) [] = False"
| "style_here (p # ps) (c # cs) = (p = c \<and> style_here ps cs)"

fun style_from :: "bool \<Rightarrow> string \<Rightarrow> string \<Rightarrow> bool" where
  "style_from b style [] = (b \<and> style_here style [])"
| "style_from b style (c # cs) =
     ((b \<and> style_here style (c # cs)) \<or> style_from (is_space c) style cs)"

text \<open>
  The regular expression that the pattern of \<open>expandRange\<close> denotes when every character of
  \<open>style\<close> stands for itself.
\<close>

definition style_regex :: "string \<Rightarrow> regex" where
  "style_regex style =
     Seq (Alt (Seq Bol Eps) (Seq (Sym is_space) Eps))
       (foldr Seq (map (\<lambda>c. Sym (\<lambda>x. x = c)) style)
          (Seq (Alt (Seq (Sym is_space) Eps) (Seq Eol Eps)) Eps))"

section \<open>Example data\<close>

text \<open>
  An editor of four lines whose handles are the line numbers themselves. Line 0 and
  line 3 are the token lists of the spec's examples; line 1 has \<open>{2,5,"x"}\<close> as its
  second token.
\<close>

definition tok :: "int \<Rightarrow> int \<Rightarrow> string \<Rightarrow> token" where
  "tok a b ty = \<lparr>start = a, end_ch = b, type = Some ty\<rparr>"

definition example_lines :: "int \<Rightarrow> token list" where
  "example_lines n =
     (if n = 0 then [tok 0 3 ''a'', tok 3 6 ''b'', tok 6 9 ''a'']
      else if n = 1 then [tok 0 2 ''b'', tok 2 5 ''x'']
      else if n = 2 then [tok 0 1 ''x'']
      else if n = 3 then [tok 0 4 ''em'', tok 4 10 ''em strong'', tok 10 14 ''plain'']
      else [])"

definition example_editor :: "int editor" where
  "example_editor =
     \<lparr>getLineHandle = (\<lambda>n. if 0 \<le> n \<and> n \<le> 3 then Some n else None),
      handle_lineNo = (\<lambda>h. h), getLineTokens = example_lines, lastLine = 3\<rparr>"

text \<open>The \<open>test\<close> of a one-character pattern such as \<open>/a/\<close>: the character occurs.\<close>

definition re_char :: "char \<Rightarrow> condition" where
  "re_char c = RegExp (\<lambda>s. c \<in> set s)"

text \<open>A seeker on line 0 of the example editor with its cursor on token \<open>i\<close>.\<close>

definition on_line0 :: "nat \<Rightarrow> int seeker" where
  "on_line0 i =
     \<lparr>line_handle = Some 0, lineNo = 0, lineTokens = Some (example_lines 0), i_token = i\<rparr>"

text \<open>
  A second editor, of three lines: one token of type \<open>"a+"\<close>; a token of type \<open>"e."\<close>
  followed by a token of type \<open>"em"\<close>; and an empty line.
\<close>

definition style_lines :: "int \<Rightarrow> token list" where
  "style_lines n =
     (if n = 0 then [tok 0 4 ''a+'']
      else if n = 1 then [tok 0 4 ''e.'', tok 4 8 ''em'']
      else [])"

definition style_editor :: "int editor" where
  "style_editor =
     \<lparr>getLineHandle = (\<lambda>n. if 0 \<le> n \<and> n \<le> 2 then Some n else None),
      handle_lineNo = (\<lambda>h. h), getLineTokens = style_lines, lastLine = 2\<rparr>"

section \<open>Properties of the scanning loop\<close>

lemma seek_ge: "i \<le> seek stop tokens i"
proof (induction stop tokens i rule: seek.induct)
  case (1 stop tokens i)
  show ?case
  proof (cases "i < length tokens \<and> \<not> stop (tokens ! i)")
    case True
    with 1 have "Suc i \<le> seek stop tokens (Suc i)" by simp
    with True show ?thesis by (subst seek.simps) simp
  next
    case False
    then show ?thesis by (subst seek.simps) auto
  qed
qed

lemma seek_le: "i \<le> length tokens \<Longrightarrow> seek stop tokens i \<le> length tokens"
proof (induction stop tokens i rule: seek.induct)
  case (1 stop tokens i)
  show ?case
  proof (cases "i < length tokens \<and> \<not> stop (tokens ! i)")
    case True
    with 1 have "seek stop tokens (Suc i) \<le> length tokens" by simp
    with True show ?thesis by (subst seek.simps) simp
  next
    case False
    with 1(2) show ?thesis by (subst seek.simps) auto
  qed
qed

lemma seek_past: "length tokens \<le> i \<Longrightarrow> seek stop tokens i = i"
  by (subst seek.simps) simp

lemma seek_stop: "seek stop tokens i < length tokens \<Longrightarrow> stop (tokens ! seek stop tokens i)"
proof (induction stop tokens i rule: seek.induct)
  case (1 stop tokens i)
  show ?case
  proof (cases "i < length tokens")
    case False
    with 1(2) show ?thesis by (simp add: seek_past)
  next
    case True
    show ?thesis
    proof (cases "stop (tokens ! i)")
      case True
      with \<open>i < length tokens\<close> have "seek stop tokens i = i" by (subst seek.simps) simp
      with True show ?thesis by simp
    next
      case False
      with \<open>i < length tokens\<close> have eq: "seek stop tokens i = seek stop tokens (Suc i)"
        by (subst seek.simps) simp
      with 1 \<open>i < length tokens\<close> False show ?thesis by simp
    qed
  qed
qed

lemma seek_first: "i \<le> k \<Longrightarrow> k < seek stop tokens i \<Longrightarrow> \<not> stop (tokens ! k)"
proof (induction stop tokens i rule: seek.induct)
  case (1 stop tokens i)
  show ?case
  proof (cases "i < length tokens \<and> \<not> stop (tokens ! i)")
    case False
    then have "seek stop tokens i = i" by (subst seek.simps) auto
    with 1(2,3) show ?thesis by simp
  next
    case True
    then have eq: "seek stop tokens i = seek stop tokens (Suc i)"
      by (subst seek.simps) simp
    show ?thesis
    proof (cases "k = i")
      case True
      with \<open>i < length tokens \<and> \<not> stop (tokens ! i)\<close> show ?thesis by simp
    next
      case False
      with 1(2) have "Suc i \<le> k" by simp
      with 1 True eq show ?thesis by simp
    qed
  qed
qed

lemma seek_eqI:
  assumes "i \<le> r" and "r < length tokens" and "stop (tokens ! r)"
    and "\<And>k. i \<le> k \<Longrightarrow> k < r \<Longrightarrow> \<not> stop (tokens ! k)"
  shows "seek stop tokens i = r"
proof -
  have "\<not> r < seek stop tokens i"
    using seek_first [of i r stop tokens] assms(1,3) by blast
  moreover have "\<not> seek stop tokens i < r"
  proof
    assume lt: "seek stop tokens i < r"
    then have "seek stop tokens i < length tokens" using assms(2) by simp
    then have "stop (tokens ! seek stop tokens i)" by (rule seek_stop)
    with assms(4) [OF seek_ge lt] show False by simp
  qed
  ultimately show ?thesis by simp
qed

lemma seek_none_iff:
  assumes "i \<le> length tokens"
  shows "seek stop tokens i = length tokens \<longleftrightarrow>
         (\<forall>k. i \<le> k \<and> k < length tokens \<longrightarrow> \<not> stop (tokens ! k))"
proof
  assume "seek stop tokens i = length tokens"
  then show "\<forall>k. i \<le> k \<and> k < length tokens \<longrightarrow> \<not> stop (tokens ! k)"
    using seek_first [of i _ stop tokens] by auto
next
  assume none: "\<forall>k. i \<le> k \<and> k < length tokens \<longrightarrow> \<not> stop (tokens ! k)"
  have "\<not> seek stop tokens i < length tokens"
  proof
    assume lt: "seek stop tokens i < length tokens"
    from seek_stop [OF lt] none seek_ge [of i stop tokens] lt show False by blast
  qed
  with seek_le [OF assms, of stop] show "seek stop tokens i = length tokens" by simp
qed

section \<open>Properties of contiguous token lists\<close>

lemma contiguous_first: "contiguous_from a ts \<Longrightarrow> ts \<noteq> [] \<Longrightarrow> start (ts ! 0) = a"
  by (cases ts) simp_all

lemma contiguous_nth:
  "contiguous_from a ts \<Longrightarrow> k < length ts \<Longrightarrow>
     a \<le> start (ts ! k) \<and> start (ts ! k) \<le> end_ch (ts ! k) \<and>
     (Suc k < length ts \<longrightarrow> start (ts ! Suc k) = end_ch (ts ! k))"
proof (induction ts arbitrary: a k)
  case Nil
  then show ?case by simp
next
  case (Cons t ts)
  show ?case
  proof (cases k)
    case 0
    with Cons.prems show ?thesis
      using contiguous_first [of "end_ch t" ts] by auto
  next
    case (Suc j)
    with Cons.prems have "contiguous_from (end_ch t) ts" and "j < length ts" by simp_all
    from Cons.IH [OF this] Cons.prems(1) Suc show ?thesis by auto
  qed
qed

lemma contiguous_end_le_start:
  "contiguous_from a ts \<Longrightarrow> j < k \<Longrightarrow> k < length ts \<Longrightarrow> end_ch (ts ! j) \<le> start (ts ! k)"
proof (induction k)
  case 0
  then show ?case by simp
next
  case (Suc k)
  from contiguous_nth [OF Suc.prems(1), of k] Suc.prems(3)
  have adj: "start (ts ! Suc k) = end_ch (ts ! k)" and le: "start (ts ! k) \<le> end_ch (ts ! k)"
    by simp_all
  show ?case
  proof (cases "j = k")
    case True
    with adj show ?thesis by simp
  next
    case False
    with Suc.prems have "j < k" and "k < length ts" by simp_all
    from Suc.IH [OF Suc.prems(1) this] adj le show ?thesis by simp
  qed
qed

lemma seek_idem: "seek stop tokens i < length tokens \<Longrightarrow> seek stop tokens (seek stop tokens i) = seek stop tokens i"
  using seek_stop [of stop tokens i] by (subst seek.simps) simp

lemma seek_skip:
  assumes "\<And>k. k < i \<Longrightarrow> \<not> stop (tokens ! k)" and "i \<le> length tokens"
  shows "seek stop tokens 0 = seek stop tokens i"
proof (cases "seek stop tokens i < length tokens")
  case True
  show ?thesis
  proof (rule seek_eqI)
    show "0 \<le> seek stop tokens i" by simp
    show "seek stop tokens i < length tokens" by (rule True)
    show "stop (tokens ! seek stop tokens i)" using True by (rule seek_stop)
    fix k assume "k < seek stop tokens i"
    then show "\<not> stop (tokens ! k)"
      using assms(1) [of k] seek_first [of i k stop tokens] by (cases "k < i") simp_all
  qed
next
  case False
  with seek_le [OF assms(2), of stop] have eq: "seek stop tokens i = length tokens" by simp
  then have "\<forall>k. i \<le> k \<and> k < length tokens \<longrightarrow> \<not> stop (tokens ! k)"
    using seek_none_iff [OF assms(2), of stop] by simp
  with assms(1) have "\<forall>k. 0 \<le> k \<and> k < length tokens \<longrightarrow> \<not> stop (tokens ! k)"
    by (metis not_le_imp_less)
  then have "seek stop tokens 0 = length tokens"
    using seek_none_iff [of 0 tokens stop] by simp
  with eq show ?thesis by simp
qed

text \<open>
  The speed-up of \<open>setPos\<close>: under the tokenizer contract, resuming at a token that starts
  at or before \<open>ch\<close> finds the same index as a scan from 0.
\<close>

lemma seek_resume:
  assumes "contiguous_from a tokens" and "i < length tokens" and "start (tokens ! i) \<le> c"
  shows "seek (\<lambda>t. end_ch t > c) tokens i = seek (\<lambda>t. end_ch t > c) tokens 0"
proof (rule seek_skip [symmetric])
  fix k assume "k < i"
  from contiguous_end_le_start [OF assms(1) this assms(2)] assms(3)
  show "\<not> c < end_ch (tokens ! k)" by simp
next
  show "i \<le> length tokens" using assms(2) by simp
qed

lemma seek_fast_start:
  assumes "contiguous_from a tokens" and "i < length tokens"
  shows "seek (\<lambda>t. end_ch t > c) tokens (if start (tokens ! i) > c then 0 else i)
       = seek (\<lambda>t. end_ch t > c) tokens 0"
  using seek_resume [OF assms, of c] by simp

lemma seek_contains:
  assumes "covers tokens lineLength" and "0 \<le> c" and "c < lineLength"
  shows "seek (\<lambda>t. end_ch t > c) tokens 0 < length tokens \<and>
         start (tokens ! seek (\<lambda>t. end_ch t > c) tokens 0) \<le> c \<and>
         c < end_ch (tokens ! seek (\<lambda>t. end_ch t > c) tokens 0)"
proof -
  let ?i = "seek (\<lambda>t. end_ch t > c) tokens 0"
  from assms have ne: "tokens \<noteq> []" and cont: "contiguous_from 0 tokens"
    and last: "c < end_ch (last tokens)"
    by (auto simp: covers_def split: if_splits)
  have "\<not> (\<forall>k. 0 \<le> k \<and> k < length tokens \<longrightarrow> \<not> c < end_ch (tokens ! k))"
    using ne last by (auto simp: last_conv_nth intro!: exI [of _ "length tokens - 1"])
  then have "?i \<noteq> length tokens"
    using seek_none_iff [of 0 tokens "\<lambda>t. end_ch t > c"] by simp
  with seek_le [of 0 tokens "\<lambda>t. end_ch t > c"] have lt: "?i < length tokens" by simp
  from seek_stop [OF lt] have hi: "c < end_ch (tokens ! ?i)" .
  have lo: "start (tokens ! ?i) \<le> c"
  proof (cases ?i)
    case 0
    with contiguous_first [OF cont ne] assms(2) show ?thesis by simp
  next
    case (Suc j)
    then have "\<not> c < end_ch (tokens ! j)"
      using seek_first [of 0 j "\<lambda>t. end_ch t > c" tokens] by simp
    moreover from contiguous_nth [OF cont, of j] lt Suc
    have "start (tokens ! ?i) = end_ch (tokens ! j)" by simp
    ultimately show ?thesis by simp
  qed
  from lt lo hi show ?thesis by simp
qed

section \<open>The paths of \<open>setPos\<close>\<close>

lemma setPos_refetch:
  assumes "precise \<or> resolve cm a s \<noteq> line_handle s" and "resolve cm a s = Some h"
  shows "setPos cm a c precise s =
    (Inr (), s\<lparr>line_handle := Some h, lineNo := handle_lineNo cm h,
               lineTokens := Some (getLineTokens cm (handle_lineNo cm h)),
               i_token := seek (\<lambda>t. end_ch t > c) (getLineTokens cm (handle_lineNo cm h)) 0\<rparr>)"
  using assms by (auto simp: setPos_def resolve_def Let_def split: line_arg.splits)

lemma setPos_refetch_undefined:
  assumes "precise \<or> resolve cm a s \<noteq> line_handle s" and "resolve cm a s = None"
  shows "setPos cm a c precise s = (Inl TypeError, s\<lparr>line_handle := None\<rparr>)"
  using assms by (auto simp: setPos_def resolve_def Let_def split: line_arg.splits)

lemma setPos_fast:
  assumes "\<not> precise" and "resolve cm a s = line_handle s"
    and "lineTokens s = Some tokens" and "i_token s < length tokens"
  shows "setPos cm a c precise s =
    (Inr (), s\<lparr>i_token := seek (\<lambda>t. end_ch t > c) tokens
                   (if start (tokens ! i_token s) > c then 0 else i_token s)\<rparr>)"
  using assms by (auto simp: setPos_def resolve_def Let_def split: line_arg.splits)

lemma setPos_fast_past_end:
  assumes "\<not> precise" and "resolve cm a s = line_handle s"
    and "lineTokens s = Some tokens" and "\<not> i_token s < length tokens"
  shows "setPos cm a c precise s = (Inl TypeError, s)"
  using assms by (auto simp: setPos_def resolve_def Let_def split: line_arg.splits)

lemma setPos_fast_undefined:
  assumes "\<not> precise" and "resolve cm a s = line_handle s" and "lineTokens s = None"
  shows "setPos cm a c precise s = (Inl TypeError, s)"
  using assms by (auto simp: setPos_def resolve_def Let_def split: line_arg.splits)

lemma resolve_after:
  "resolve cm a s = Some h \<Longrightarrow> line_handle s' = Some h \<Longrightarrow> resolve cm a s' = Some h"
  by (auto simp: resolve_def split: line_arg.splits)

lemma resolve_same:
  "line_handle s' = line_handle s \<Longrightarrow> resolve cm a s' = resolve cm a s"
  by (auto simp: resolve_def split: line_arg.splits)

lemma resolve_undefined:
  assumes "\<And>n. a = LineNumber n \<Longrightarrow> getLineHandle cm n \<noteq> None" and "resolve cm a s = None"
  shows "a = Current \<and> line_handle s = None"
  using assms by (cases a) (auto simp: resolve_def)

lemma setPos_twice:
  assumes cache: "\<And>tokens. lineTokens s = Some tokens \<Longrightarrow> contiguous_from 0 tokens"
    and valid: "\<And>n. a = LineNumber n \<Longrightarrow> getLineHandle cm n \<noteq> None"
  shows "snd (setPos cm a c precise (snd (setPos cm a c precise s))) = snd (setPos cm a c precise s)"
proof (cases "precise \<or> resolve cm a s \<noteq> line_handle s")
  case True
  show ?thesis
  proof (cases "resolve cm a s")
    case None
    from resolve_undefined [OF valid None] have "s\<lparr>line_handle := None\<rparr> = s" by simp
    with setPos_refetch_undefined [OF True None, of c] show ?thesis by simp
  next
    case (Some h)
    let ?T = "getLineTokens cm (handle_lineNo cm h)"
    let ?i = "seek (\<lambda>t. end_ch t > c) ?T 0"
    let ?s1 = "s\<lparr>line_handle := Some h, lineNo := handle_lineNo cm h, lineTokens := Some ?T, i_token := ?i\<rparr>"
    have first: "setPos cm a c precise s = (Inr (), ?s1)" by (rule setPos_refetch [OF True Some])
    have r1: "resolve cm a ?s1 = Some h" by (rule resolve_after [OF Some]) simp
    show ?thesis
    proof (cases precise)
      case True
      then have "setPos cm a c precise ?s1 = (Inr (), ?s1)"
        using setPos_refetch [of precise cm a ?s1 h c] r1 by simp
      with first show ?thesis by simp
    next
      case False
      show ?thesis
      proof (cases "?i < length ?T")
        case True
        have idem: "seek (\<lambda>t. end_ch t > c) ?T (if start (?T ! ?i) > c then 0 else ?i) = ?i"
          using seek_idem [OF True] by simp
        have it: "i_token ?s1 = ?i" and T1: "lineTokens ?s1 = Some ?T" by simp_all
        have r1': "resolve cm a ?s1 = line_handle ?s1" using r1 by simp
        have lt: "i_token ?s1 < length ?T" using True by simp
        have "setPos cm a c precise ?s1 =
           (Inr (), ?s1\<lparr>i_token := seek (\<lambda>t. end_ch t > c) ?T
               (if start (?T ! i_token ?s1) > c then 0 else i_token ?s1)\<rparr>)"
          by (rule setPos_fast [OF False r1' T1 lt])
        also have "\<dots> = (Inr (), ?s1\<lparr>i_token := ?i\<rparr>)"
          by (simp only: it idem)
        also have "\<dots> = (Inr (), ?s1)" by simp
        finally show ?thesis using first by simp
      next
        case past: False
        have "setPos cm a c precise ?s1 = (Inl TypeError, ?s1)"
          using setPos_fast_past_end [of precise cm a ?s1 ?T c] False r1 past by simp
        with first show ?thesis by simp
      qed
    qed
  qed
next
  case False
  then have np: "\<not> precise" and same: "resolve cm a s = line_handle s" by simp_all
  show ?thesis
  proof (cases "lineTokens s")
    case None
    from setPos_fast_undefined [OF np same None] show ?thesis by simp
  next
    case (Some T)
    show ?thesis
    proof (cases "i_token s < length T")
      case past: False
      from setPos_fast_past_end [OF np same Some past] show ?thesis by simp
    next
      case True
      let ?i = "seek (\<lambda>t. end_ch t > c) T (if start (T ! i_token s) > c then 0 else i_token s)"
      let ?s1 = "s\<lparr>i_token := ?i\<rparr>"
      have first: "setPos cm a c precise s = (Inr (), ?s1)"
        by (rule setPos_fast [OF np same Some True])
      have r1: "resolve cm a ?s1 = line_handle ?s1"
        using resolve_same [of ?s1 s cm a] same by simp
      have T1: "lineTokens ?s1 = Some T" using Some by simp
      have cont: "contiguous_from 0 T" by (rule cache [OF Some])
      have i0: "?i = seek (\<lambda>t. end_ch t > c) T 0" by (rule seek_fast_start [OF cont True])
      show ?thesis
      proof (cases "?i < length T")
        case past: False
        have "setPos cm a c precise ?s1 = (Inl TypeError, ?s1)"
          using setPos_fast_past_end [OF np r1 T1] past by simp
        with first show ?thesis by simp
      next
        case lt: True
        have "seek (\<lambda>t. end_ch t > c) T (if start (T ! ?i) > c then 0 else ?i)
              = seek (\<lambda>t. end_ch t > c) T 0"
          by (rule seek_fast_start [OF cont lt])
        with i0 have idem: "seek (\<lambda>t. end_ch t > c) T (if start (T ! ?i) > c then 0 else ?i) = ?i"
          by (simp only:)
        have it: "i_token ?s1 = ?i" by simp
        have lt1: "i_token ?s1 < length T" using lt by simp
        have "setPos cm a c precise ?s1 =
           (Inr (), ?s1\<lparr>i_token := seek (\<lambda>t. end_ch t > c) T
               (if start (T ! i_token ?s1) > c then 0 else i_token ?s1)\<rparr>)"
          by (rule setPos_fast [OF np r1 T1 lt1])
        also have "\<dots> = (Inr (), ?s1\<lparr>i_token := ?i\<rparr>)"
          by (simp only: it idem)
        also have "\<dots> = (Inr (), ?s1)" by simp
        finally show ?thesis using first by simp
      qed
    qed
  qed
qed

lemma reachable_cache:
  "reachable s \<Longrightarrow> lineTokens s = Some tokens \<Longrightarrow> contiguous_from 0 tokens"
proof (induction arbitrary: tokens rule: reachable.induct)
  case new
  then show ?case by (simp add: new_TokenSeeker_def)
next
  case (setPos s cm a c precise)
  from setPos.prems setPos.IH setPos.hyps(2) show ?case
    by (auto simp: setPos_def Let_def tokenizer_contract_def split: option.splits if_splits)
next
  case (findNext s cm cond varg since)
  have "snd (snd (findNext cm cond varg since s)) = s"
    by (simp add: findNext_def Let_def split: option.split sum.split prod.split)
  with findNext show ?case by simp
qed

lemmas example_simps = example_editor_def example_lines_def tok_def on_line0_def
  new_TokenSeeker_def resolve_def

lemma example_contract: "tokenizer_contract example_editor"
  by (simp add: tokenizer_contract_def example_editor_def example_lines_def tok_def)

section \<open>\<open>setPos\<close>: the speed-up against a refetch\<close>

text \<open>
  While the cursor is on a token (\<open>i_token < lineTokens.length\<close>) and the cached tokens
  are those of the line and honour the tokenizer contract, a call with \<open>precise = false\<close>
  does exactly what the call with \<open>precise = true\<close> does.
\<close>

lemma setPos_fast_eq_precise:
  assumes "line_handle s = Some h" and "lineNo s = handle_lineNo cm h"
    and "lineTokens s = Some (getLineTokens cm (lineNo s))"
    and "contiguous_from 0 (getLineTokens cm (lineNo s))"
    and "i_token s < length (getLineTokens cm (lineNo s))"
    and "resolve cm a s = Some h"
  shows "setPos cm a c False s = setPos cm a c True s"
proof -
  let ?T = "getLineTokens cm (lineNo s)"
  have "setPos cm a c False s =
      (Inr (), s\<lparr>i_token := seek (\<lambda>t. end_ch t > c) ?T
                   (if start (?T ! i_token s) > c then 0 else i_token s)\<rparr>)"
    using assms by (intro setPos_fast) simp_all
  also have "\<dots> = (Inr (), s\<lparr>i_token := seek (\<lambda>t. end_ch t > c) ?T 0\<rparr>)"
    by (simp only: seek_fast_start [OF assms(4,5)])
  also have "\<dots> = setPos cm a c True s"
    using setPos_refetch [of True cm a s h c] assms by simp
  finally show ?thesis .
qed

text \<open>
  Claim C1. For every seeker that tracks a line, every sequence of \<open>setPos\<close> calls on that
  line with \<open>precise = false\<close> and non-decreasing \<open>ch\<close> should leave, after each call, the
  state that the same calls with \<open>precise = true\<close> leave. The code breaks this once the
  cursor is past the last token (\<open>i_token = lineTokens.length\<close>, the state that \<open>setPos\<close>
  itself produces for a \<open>ch\<close> at or beyond the end of the line): the speed-up reads
  \<open>lineTokens[i_token].start\<close> without a bounds check and raises a \<open>TypeError\<close>. On the
  line \<open>[{0,3,"a"},{3,6,"b"},{6,9,"a"}]\<close>: after \<open>setPos(0, 9)\<close>, the call
  \<open>setPos(0, 4, false)\<close> raises and leaves \<open>i_token = 3\<close>, where \<open>setPos(0, 4, true)\<close>
  returns with \<open>i_token = 1\<close>; and in the non-decreasing sequence 9, 10 from a cursor on
  token 2 the second call raises with \<open>precise = false\<close> and returns with
  \<open>precise = true\<close>.
\<close>

theorem setPos_fast_path_raises:
  "setPos example_editor (LineNumber 0) 9 True new_TokenSeeker = (Inr (), on_line0 3) \<and>
   setPos example_editor (LineNumber 0) 4 False (on_line0 3) = (Inl TypeError, on_line0 3) \<and>
   setPos example_editor (LineNumber 0) 4 True (on_line0 3) = (Inr (), on_line0 1) \<and>
   setPos example_editor (LineNumber 0) 9 False (on_line0 2) = (Inr (), on_line0 3) \<and>
   setPos example_editor (LineNumber 0) 10 False (on_line0 3) = (Inl TypeError, on_line0 3) \<and>
   setPos example_editor (LineNumber 0) 10 True (on_line0 3) = (Inr (), on_line0 3)"
  by (simp add: setPos_def seek.simps example_simps)

section \<open>\<open>setPos\<close>: the token under the cursor\<close>

text \<open>
  On a line whose tokens cover \<open>[0, lineLength)\<close> and for \<open>0 \<le> ch < lineLength\<close>, a call
  that refetches, and a call that takes the speed-up from a cursor that is on a token,
  return normally with \<open>i_token\<close> on the token that contains \<open>ch\<close>.
\<close>

lemma setPos_refetch_locates:
  assumes "covers tokens lineLength" and "0 \<le> c" and "c < lineLength"
    and "resolve cm a s = Some h" and "getLineTokens cm (handle_lineNo cm h) = tokens"
    and "precise \<or> line_handle s \<noteq> Some h"
  shows "\<exists>s'. setPos cm a c precise s = (Inr (), s') \<and> lineTokens s' = Some tokens \<and>
           i_token s' < length tokens \<and> start (tokens ! i_token s') \<le> c \<and>
           c < end_ch (tokens ! i_token s')"
  using setPos_refetch [of precise cm a s h c] seek_contains [OF assms(1-3)] assms(4-6)
  by auto

lemma setPos_fast_locates:
  assumes "covers tokens lineLength" and "0 \<le> c" and "c < lineLength"
    and "resolve cm a s = line_handle s" and "lineTokens s = Some tokens"
    and "i_token s < length tokens"
  shows "\<exists>s'. setPos cm a c False s = (Inr (), s') \<and> lineTokens s' = Some tokens \<and>
           i_token s' < length tokens \<and> start (tokens ! i_token s') \<le> c \<and>
           c < end_ch (tokens ! i_token s')"
proof -
  from assms(1) have cont: "contiguous_from 0 tokens" by (simp add: covers_def)
  have "setPos cm a c False s =
      (Inr (), s\<lparr>i_token := seek (\<lambda>t. end_ch t > c) tokens
                   (if start (tokens ! i_token s) > c then 0 else i_token s)\<rparr>)"
    using assms(4-6) by (intro setPos_fast) simp_all
  also have "\<dots> = (Inr (), s\<lparr>i_token := seek (\<lambda>t. end_ch t > c) tokens 0\<rparr>)"
    by (simp only: seek_fast_start [OF cont assms(6)])
  finally show ?thesis using seek_contains [OF assms(1-3)] assms(5) by simp
qed

text \<open>
  Claim C2. On a line whose tokens are contiguous and cover \<open>[0, lineLength)\<close>, and for
  \<open>0 \<le> ch < lineLength\<close>, \<open>i_token\<close> should index a token that contains \<open>ch\<close> after
  \<open>setPos(ch)\<close>. The code misses this for a seeker whose cursor is past the last token:
  on the line \<open>[{0,3,"a"},{3,6,"b"},{6,9,"a"}]\<close> (length 9), after \<open>setPos(0, 9)\<close> the call
  \<open>setPos(4)\<close> raises a \<open>TypeError\<close> and leaves \<open>i_token = 3\<close>, which indexes no token.
\<close>

theorem setPos_past_end_misses:
  "covers (example_lines 0) 9 \<and>
   snd (setPos example_editor (LineNumber 0) 9 False new_TokenSeeker) = on_line0 3 \<and>
   setPos example_editor Current 4 False (on_line0 3) = (Inl TypeError, on_line0 3) \<and>
   \<not> i_token (on_line0 3) < length (example_lines 0)"
  by (simp add: setPos_def seek.simps covers_def example_simps)

section \<open>\<open>setPos\<close> twice\<close>

text \<open>
  Claim C9 says that for every reachable seeker and every combination of line argument,
  \<open>ch\<close> and \<open>precise\<close>, a second \<open>setPos\<close> with the same arguments right after the first
  leaves the fields \<open>line\<close>, \<open>lineNo\<close>, \<open>lineTokens\<close> and \<open>i_token\<close> as the first call left
  them. It fails for a number that is not a line of the document. In the example editor,
  with the cursor on token 2 of line 0, \<open>setPos(99, 4)\<close> assigns \<open>this.line = undefined\<close>
  and raises on \<open>line.lineNo()\<close>, with \<open>i_token\<close> still 2; the second \<open>setPos(99, 4)\<close> finds
  \<open>undefined === this.line\<close>, takes the speed-up on the tokens of line 0 and returns with
  \<open>i_token = 1\<close>.
\<close>

theorem setPos_idempotent_counterexample:
  "reachable (on_line0 2) \<and>
   setPos example_editor (LineNumber 99) 4 False (on_line0 2) =
     (Inl TypeError, (on_line0 2)\<lparr>line_handle := None\<rparr>) \<and>
   setPos example_editor (LineNumber 99) 4 False ((on_line0 2)\<lparr>line_handle := None\<rparr>) =
     (Inr (), (on_line0 1)\<lparr>line_handle := None\<rparr>) \<and>
   snd (setPos example_editor (LineNumber 99) 4 False
          (snd (setPos example_editor (LineNumber 99) 4 False (on_line0 2)))) \<noteq>
   snd (setPos example_editor (LineNumber 99) 4 False (on_line0 2))"
proof -
  have "reachable (snd (setPos example_editor (LineNumber 0) 7 False (new_TokenSeeker :: int seeker)))"
    by (intro reachable.intros example_contract)
  moreover have "snd (setPos example_editor (LineNumber 0) 7 False new_TokenSeeker) = on_line0 2"
    by (simp add: setPos_def seek.simps example_simps)
  ultimately have r: "reachable (on_line0 2)" by simp
  have 1: "setPos example_editor (LineNumber 99) 4 False (on_line0 2) =
     (Inl TypeError, (on_line0 2)\<lparr>line_handle := None\<rparr>)"
    by (simp add: setPos_def example_simps)
  have 2: "setPos example_editor (LineNumber 99) 4 False ((on_line0 2)\<lparr>line_handle := None\<rparr>) =
     (Inr (), (on_line0 1)\<lparr>line_handle := None\<rparr>)"
    by (simp add: setPos_def seek.simps example_simps)
  have "(on_line0 1)\<lparr>line_handle := None\<rparr> \<noteq> (on_line0 2)\<lparr>line_handle := None\<rparr>"
    by (simp add: on_line0_def)
  with r 1 2 show ?thesis by simp
qed

text \<open>
  Claim C9, corrected. For every reachable seeker and every combination of line
  argument, \<open>ch\<close> and \<open>precise\<close> in which a line number is the number of a line of the
  document, a second \<open>setPos\<close> with the same arguments right after the first leaves the
  fields \<open>line\<close>, \<open>lineNo\<close>, \<open>lineTokens\<close> and \<open>i_token\<close> as the first call left them.
\<close>

theorem setPos_idempotent:
  assumes "reachable s"
    and "\<forall>n. a = LineNumber n \<longrightarrow> getLineHandle cm n \<noteq> None"
  shows "snd (setPos cm a c precise (snd (setPos cm a c precise s))) = snd (setPos cm a c precise s)"
proof (rule setPos_twice)
  fix tokens assume "lineTokens s = Some tokens"
  with assms(1) show "contiguous_from 0 tokens" by (rule reachable_cache)
next
  fix n assume "a = LineNumber n"
  with assms(2) show "getLineHandle cm n \<noteq> None" by simp
qed

theorem setPos_idempotent_witness:
  "reachable (on_line0 1) \<and> getLineHandle example_editor 0 \<noteq> None \<and>
   snd (setPos example_editor (LineNumber 0) 7 False (on_line0 1)) = on_line0 2 \<and>
   snd (setPos example_editor (LineNumber 0) 7 False (on_line0 2)) = on_line0 2"
proof -
  have "reachable (snd (setPos example_editor (LineNumber 0) 4 False (new_TokenSeeker :: int seeker)))"
    by (intro reachable.intros example_contract)
  moreover have "snd (setPos example_editor (LineNumber 0) 4 False new_TokenSeeker) = on_line0 1"
    by (simp add: setPos_def seek.simps example_simps)
  ultimately have r: "reachable (on_line0 1)" by simp
  have v: "getLineHandle example_editor 0 \<noteq> None" by (simp add: example_editor_def)
  then have v': "\<forall>n. LineNumber 0 = LineNumber n \<longrightarrow> getLineHandle example_editor n \<noteq> None"
    by simp
  have 1: "snd (setPos example_editor (LineNumber 0) 7 False (on_line0 1)) = on_line0 2"
    by (simp add: setPos_def seek.simps example_simps)
  from setPos_idempotent [OF r v', of 7 False] r v 1
  show ?thesis by simp
qed

section \<open>The loop of \<open>findNext\<close> on the current line\<close>

lemma cond_at_token: "i < length tokens \<Longrightarrow>
    cond_at cond (token_at tokens (int i)) = Inr (holds cond (tokens ! i))"
  by (cases cond) (simp_all add: token_at_def)

text \<open>From an index that is not negative, the loop is the scanning loop.\<close>

lemma scan_line_seek:
  "stop = holds cond \<Longrightarrow>
   scan_line cond tokens (int i) =
     Inr (int (seek stop tokens i),
          if seek stop tokens i < length tokens then Some (tokens ! seek stop tokens i) else None)"
proof (induction stop tokens i rule: seek.induct)
  case (1 stop tokens i)
  show ?case
  proof (cases "i < length tokens")
    case False
    then have "scan_line cond tokens (int i) = Inr (int i, None)"
      by (subst scan_line.simps) simp
    with False show ?thesis by (simp add: seek_past)
  next
    case True
    show ?thesis
    proof (cases "stop (tokens ! i)")
      case hit: True
      with True have "seek stop tokens i = i" by (subst seek.simps) simp
      moreover have "scan_line cond tokens (int i) = Inr (int i, Some (tokens ! i))"
        using True hit "1.prems"
        by (subst scan_line.simps) (simp add: cond_at_token, simp add: token_at_def)
      ultimately show ?thesis using True by simp
    next
      case miss: False
      with True have eq: "seek stop tokens i = seek stop tokens (Suc i)"
        by (subst seek.simps) simp
      have "scan_line cond tokens (int i) = scan_line cond tokens (int i + 1)"
        using True miss "1.prems" by (subst scan_line.simps) (simp add: cond_at_token)
      also have "int i + 1 = int (Suc i)" by simp
      finally show ?thesis using "1.IH" [OF True miss "1.prems"] eq by simp
    qed
  qed
qed

lemma scan_line_nonneg:
  "scan_line cond tokens (int i) =
     Inr (int (seek (holds cond) tokens i),
          if seek (holds cond) tokens i < length tokens
          then Some (tokens ! seek (holds cond) tokens i) else None)"
  by (rule scan_line_seek) simp

lemma seek_no_match:
  assumes "\<forall>k. i \<le> k \<and> k < length tokens \<longrightarrow> \<not> stop (tokens ! k)"
  shows "\<not> seek stop tokens i < length tokens"
proof
  assume lt: "seek stop tokens i < length tokens"
  from seek_stop [OF lt] seek_ge [of i stop tokens] lt assms show False by blast
qed

lemma seek_miss_iff:
  "\<not> seek stop tokens i < length tokens \<longleftrightarrow>
   (\<forall>k. i \<le> k \<and> k < length tokens \<longrightarrow> \<not> stop (tokens ! k))"
proof
  assume miss: "\<not> seek stop tokens i < length tokens"
  show "\<forall>k. i \<le> k \<and> k < length tokens \<longrightarrow> \<not> stop (tokens ! k)"
  proof (intro allI impI)
    fix k assume k: "i \<le> k \<and> k < length tokens"
    with miss have "k < seek stop tokens i" by simp
    with k show "\<not> stop (tokens ! k)" using seek_first [of i k stop tokens] by simp
  qed
next
  assume "\<forall>k. i \<le> k \<and> k < length tokens \<longrightarrow> \<not> stop (tokens ! k)"
  then show "\<not> seek stop tokens i < length tokens" by (rule seek_no_match)
qed

text \<open>The three ways through \<open>findNext\<close> on a positioned seeker.\<close>

lemma findNext_current_hit:
  assumes "lineTokens this = Some tokens"
    and "start_index varg since (lineNo this) tokens (i_token this) = Inr (int i1)"
    and "seek (holds cond) tokens i1 < length tokens"
  shows "findNext cm cond varg since this =
     (Inr (Some \<lparr>found_lineNo = lineNo this,
                  found_token = tokens ! seek (holds cond) tokens i1,
                  found_i_token = seek (holds cond) tokens i1\<rparr>), [], this)"
  using assms by (simp add: findNext_def scan_line_nonneg Let_def)

lemma findNext_current_only:
  assumes "lineTokens this = Some tokens"
    and "start_index varg since (lineNo this) tokens (i_token this) = Inr (int i1)"
    and "\<not> seek (holds cond) tokens i1 < length tokens"
    and "varg \<noteq> Flag True"
  shows "findNext cm cond varg since this = (Inr None, [], this)"
  using assms by (simp add: findNext_def scan_line_nonneg Let_def)

lemma findNext_span_unfold:
  assumes "lineTokens this = Some tokens"
    and "start_index (Flag True) since (lineNo this) tokens (i_token this) = Inr (int i1)"
    and "\<not> seek (holds cond) tokens i1 < length tokens"
  shows "findNext cm cond (Flag True) since this =
     (let st = eachLine_list cm
            [max (case since of None \<Rightarrow> 0 | Some p \<Rightarrow> line p) (lineNo this + 1)..lastLine cm]
            (visitLine cm cond since)
            \<lparr>s_lineNo = lineNo this, s_tokens = tokens,
             s_i_token = int (seek (holds cond) tokens i1), s_token = None, s_fetched = []\<rparr>
      in ((case s_token st of
             None \<Rightarrow> Inr None
           | Some t \<Rightarrow> Inr (Some \<lparr>found_lineNo = s_lineNo st, found_token = t,
                                  found_i_token = nat (s_i_token st)\<rparr>)),
          s_fetched st, this))"
  using assms unfolding findNext_def eachLine_def
  by (simp add: scan_line_nonneg Let_def cong: option.case_cong)

section \<open>\<open>findNext\<close> leaves the seeker alone\<close>

text \<open>
  Claim C3. Whatever the condition, the second argument and the \<open>since\<close> position are,
  and whether a token is found, none is found or the call raises, \<open>findNext\<close> leaves the
  fields \<open>line\<close>, \<open>lineNo\<close>, \<open>lineTokens\<close> and \<open>i_token\<close> of the seeker as they were: it
  works on local copies only.
\<close>

theorem findNext_frame: "snd (snd (findNext cm cond varg since this)) = this"
  by (simp add: findNext_def Let_def split: option.split sum.split prod.split)

section \<open>\<open>findNext\<close> on the current line\<close>

text \<open>
  Claim C5. Without spanning, without an explicit start index and without a \<open>since\<close>
  position, \<open>findNext\<close> on a positioned seeker fetches no line and scans the current
  line from index \<open>i_token + 1\<close>: a result is the first matching token strictly after the
  current one, and \<open>null\<close> means that no later token of the line matches. On the tokens
  \<open>[{0,3,"a"},{3,6,"b"},{6,9,"a"}]\<close> with the cursor on token 0, \<open>findNext(/a/)\<close> is
  therefore the token \<open>{6,9,"a"}\<close> at index 2.
\<close>

theorem findNext_default_start:
  assumes "lineTokens this = Some tokens" and "varg = Omitted \<or> varg = Flag False"
  shows "\<exists>res. findNext cm cond varg None this = (Inr res, [], this) \<and>
     (case res of
        None \<Rightarrow> \<forall>k. i_token this < k \<and> k < length tokens \<longrightarrow> \<not> holds cond (tokens ! k)
      | Some r \<Rightarrow>
          found_lineNo r = lineNo this \<and> i_token this < found_i_token r \<and>
          found_i_token r < length tokens \<and> found_token r = tokens ! found_i_token r \<and>
          holds cond (found_token r) \<and>
          (\<forall>k. i_token this < k \<and> k < found_i_token r \<longrightarrow> \<not> holds cond (tokens ! k)))"
proof -
  let ?i = "seek (holds cond) tokens (Suc (i_token this))"
  have si: "start_index varg None (lineNo this) tokens (i_token this) = Inr (int (Suc (i_token this)))"
    using assms(2) by (auto simp: start_index_def)
  have nospan: "varg \<noteq> Flag True" using assms(2) by auto
  show ?thesis
  proof (cases "?i < length tokens")
    case True
    have "findNext cm cond varg None this =
        (Inr (Some \<lparr>found_lineNo = lineNo this, found_token = tokens ! ?i, found_i_token = ?i\<rparr>), [], this)"
      by (rule findNext_current_hit [OF assms(1) si True])
    moreover have "i_token this < ?i" using seek_ge [of "Suc (i_token this)" "holds cond" tokens] by simp
    moreover have "holds cond (tokens ! ?i)" using True by (rule seek_stop)
    moreover have "\<forall>k. i_token this < k \<and> k < ?i \<longrightarrow> \<not> holds cond (tokens ! k)"
      using seek_first [of "Suc (i_token this)" _ "holds cond" tokens] by auto
    ultimately show ?thesis using True by simp
  next
    case False
    have "findNext cm cond varg None this = (Inr None, [], this)"
      by (rule findNext_current_only [OF assms(1) si False nospan])
    moreover have "\<forall>k. i_token this < k \<and> k < length tokens \<longrightarrow> \<not> holds cond (tokens ! k)"
    proof (intro allI impI)
      fix k assume k: "i_token this < k \<and> k < length tokens"
      with False have "k < ?i" by simp
      with k show "\<not> holds cond (tokens ! k)"
        using seek_first [of "Suc (i_token this)" k "holds cond" tokens] by simp
    qed
    ultimately show ?thesis by simp
  qed
qed

theorem findNext_default_start_witness:
  "lineTokens (on_line0 0) = Some (example_lines 0) \<and>
   findNext example_editor (re_char CHR ''a'') Omitted None (on_line0 0) =
     (Inr (Some \<lparr>found_lineNo = 0, found_token = tok 6 9 ''a'', found_i_token = 2\<rparr>), [], on_line0 0)"
proof -
  have h: "lineTokens (on_line0 0) = Some (example_lines 0)" by (simp add: on_line0_def)
  from findNext_default_start [OF h, of Omitted example_editor "re_char CHR ''a''"]
  obtain res where eq: "findNext example_editor (re_char CHR ''a'') Omitted None (on_line0 0) = (Inr res, [], on_line0 0)"
    and rprop: "(case res of
        None \<Rightarrow> \<forall>k. i_token (on_line0 0) < k \<and> k < length (example_lines 0) \<longrightarrow> \<not> holds (re_char CHR ''a'') (example_lines 0 ! k)
      | Some r \<Rightarrow>
          found_lineNo r = lineNo (on_line0 0) \<and> i_token (on_line0 0) < found_i_token r \<and>
          found_i_token r < length (example_lines 0) \<and> found_token r = example_lines 0 ! found_i_token r \<and>
          holds (re_char CHR ''a'') (found_token r) \<and>
          (\<forall>k. i_token (on_line0 0) < k \<and> k < found_i_token r \<longrightarrow> \<not> holds (re_char CHR ''a'') (example_lines 0 ! k)))"
    by auto
  have m2: "holds (re_char CHR ''a'') (example_lines 0 ! 2)"
    by (simp add: re_char_def example_lines_def tok_def to_string_def)
  have n1: "\<not> holds (re_char CHR ''a'') (example_lines 0 ! 1)"
    by (simp add: re_char_def example_lines_def tok_def to_string_def)
  have len: "length (example_lines 0) = 3" by (simp add: example_lines_def)
  show ?thesis
  proof (cases res)
    case None
    with rprop m2 len show ?thesis by (auto simp: on_line0_def)
  next
    case (Some r)
    with rprop have a: "found_lineNo r = 0" "0 < found_i_token r" "found_i_token r < 3"
      "found_token r = example_lines 0 ! found_i_token r" "holds (re_char CHR ''a'') (found_token r)"
      by (auto simp: on_line0_def len)
    from a(2,3) have "found_i_token r = 1 \<or> found_i_token r = 2" by arith
    with a(4,5) n1 have i2: "found_i_token r = 2" by auto
    with a(4) have "found_token r = tok 6 9 ''a''" by (simp add: example_lines_def)
    with a(1) i2 have "r = \<lparr>found_lineNo = 0, found_token = tok 6 9 ''a'', found_i_token = 2\<rparr>" by simp
    with eq Some h show ?thesis by simp
  qed
qed

section \<open>\<open>findNext\<close> across lines\<close>

lemma own_number_handle:
  "own_number cm n \<Longrightarrow> \<exists>h. getLineHandle cm n = Some h \<and> handle_lineNo cm h = n"
  by (auto simp: own_number_def split: option.splits)

lemma since_index_le: "since_index since n tokens \<le> length tokens"
  by (auto simp: since_index_def seek_le split: option.splits)

lemma match_index_miss_iff:
  "\<not> match_index cm cond since n < length (getLineTokens cm n) \<longleftrightarrow>
   (\<forall>k. since_index since n (getLineTokens cm n) \<le> k \<and> k < length (getLineTokens cm n)
        \<longrightarrow> \<not> holds cond (getLineTokens cm n ! k))"
proof -
  let ?T = "getLineTokens cm n"
  have "match_index cm cond since n \<le> length ?T"
    unfolding match_index_def by (rule seek_le [OF since_index_le])
  then have "\<not> match_index cm cond since n < length ?T \<longleftrightarrow> match_index cm cond since n = length ?T"
    by auto
  then show ?thesis
    unfolding match_index_def
    using seek_none_iff [of "since_index since n ?T" ?T "holds cond"] since_index_le [of since n ?T]
    by simp
qed

lemma visitLine_miss:
  assumes "own_number cm n"
    and "\<not> match_index cm cond since n < length (getLineTokens cm n)"
  shows "eachLine_list cm (n # ns) (visitLine cm cond since) st =
     eachLine_list cm ns (visitLine cm cond since)
       (st\<lparr>s_lineNo := n, s_tokens := getLineTokens cm n,
           s_i_token := int (match_index cm cond since n), s_fetched := s_fetched st @ [n]\<rparr>)"
proof -
  from own_number_handle [OF assms(1)] obtain h
    where h: "getLineHandle cm n = Some h" "handle_lineNo cm h = n" by blast
  with assms(2) show ?thesis by (simp add: visitLine_def match_index_def Let_def)
qed

lemma visitLine_hit:
  assumes "own_number cm n"
    and "match_index cm cond since n < length (getLineTokens cm n)"
  shows "eachLine_list cm (n # ns) (visitLine cm cond since) st =
     st\<lparr>s_lineNo := n, s_tokens := getLineTokens cm n,
        s_i_token := int (match_index cm cond since n), s_fetched := s_fetched st @ [n],
        s_token := Some (getLineTokens cm n ! match_index cm cond since n)\<rparr>"
proof -
  from own_number_handle [OF assms(1)] obtain h
    where h: "getLineHandle cm n = Some h" "handle_lineNo cm h = n" by blast
  with assms(2) show ?thesis by (simp add: visitLine_def match_index_def Let_def)
qed

lemma eachLine_list_miss:
  assumes "\<And>n. n \<in> set ns \<Longrightarrow> own_number cm n"
    and "\<And>n. n \<in> set ns \<Longrightarrow> \<not> match_index cm cond since n < length (getLineTokens cm n)"
  shows "s_token (eachLine_list cm ns (visitLine cm cond since) st) = s_token st \<and>
         s_fetched (eachLine_list cm ns (visitLine cm cond since) st) = s_fetched st @ ns"
  using assms
proof (induction ns arbitrary: st)
  case Nil
  then show ?case by simp
next
  case (Cons n ns)
  let ?st = "st\<lparr>s_lineNo := n, s_tokens := getLineTokens cm n,
                s_i_token := int (match_index cm cond since n), s_fetched := s_fetched st @ [n]\<rparr>"
  have v: "eachLine_list cm (n # ns) (visitLine cm cond since) st =
           eachLine_list cm ns (visitLine cm cond since) ?st"
    by (rule visitLine_miss) (simp_all add: Cons.prems)
  have "s_token (eachLine_list cm ns (visitLine cm cond since) ?st) = s_token ?st \<and>
        s_fetched (eachLine_list cm ns (visitLine cm cond since) ?st) = s_fetched ?st @ ns"
    by (rule Cons.IH) (simp_all add: Cons.prems)
  with v show ?case by simp
qed

lemma eachLine_list_hit:
  assumes "\<And>n. n \<in> set pre \<Longrightarrow> own_number cm n"
    and "\<And>n. n \<in> set pre \<Longrightarrow> \<not> match_index cm cond since n < length (getLineTokens cm n)"
    and "own_number cm m"
    and "match_index cm cond since m < length (getLineTokens cm m)"
  shows "eachLine_list cm (pre @ m # post) (visitLine cm cond since) st =
     st\<lparr>s_lineNo := m, s_tokens := getLineTokens cm m,
        s_i_token := int (match_index cm cond since m), s_fetched := s_fetched st @ pre @ [m],
        s_token := Some (getLineTokens cm m ! match_index cm cond since m)\<rparr>"
  using assms(1,2)
proof (induction pre arbitrary: st)
  case Nil
  from visitLine_hit [OF assms(3,4), of post st] show ?case by simp
next
  case (Cons n pre)
  let ?st = "st\<lparr>s_lineNo := n, s_tokens := getLineTokens cm n,
                s_i_token := int (match_index cm cond since n), s_fetched := s_fetched st @ [n]\<rparr>"
  have v: "eachLine_list cm (n # pre @ m # post) (visitLine cm cond since) st =
           eachLine_list cm (pre @ m # post) (visitLine cm cond since) ?st"
    by (rule visitLine_miss) (simp_all add: Cons.prems)
  have "eachLine_list cm (pre @ m # post) (visitLine cm cond since) ?st =
     ?st\<lparr>s_lineNo := m, s_tokens := getLineTokens cm m,
        s_i_token := int (match_index cm cond since m), s_fetched := s_fetched ?st @ pre @ [m],
        s_token := Some (getLineTokens cm m ! match_index cm cond since m)\<rparr>"
    by (rule Cons.IH) (simp_all add: Cons.prems)
  with v show ?case by simp
qed

lemma eachLine_list_none_iff:
  assumes "\<And>n. n \<in> set ns \<Longrightarrow> own_number cm n"
    and "s_token st = None"
  shows "s_token (eachLine_list cm ns (visitLine cm cond since) st) = None \<longleftrightarrow>
         (\<forall>n \<in> set ns. \<not> match_index cm cond since n < length (getLineTokens cm n))"
  using assms
proof (induction ns arbitrary: st)
  case Nil
  then show ?case by simp
next
  case (Cons n ns)
  have own: "own_number cm n" by (simp add: Cons.prems)
  show ?case
  proof (cases "match_index cm cond since n < length (getLineTokens cm n)")
    case True
    from visitLine_hit [OF own True, of ns st] True show ?thesis by simp
  next
    case False
    let ?st = "st\<lparr>s_lineNo := n, s_tokens := getLineTokens cm n,
                  s_i_token := int (match_index cm cond since n), s_fetched := s_fetched st @ [n]\<rparr>"
    have "s_token (eachLine_list cm ns (visitLine cm cond since) ?st) = None \<longleftrightarrow>
         (\<forall>n \<in> set ns. \<not> match_index cm cond since n < length (getLineTokens cm n))"
      by (rule Cons.IH) (simp_all add: Cons.prems)
    with visitLine_miss [OF own False, of ns st] False show ?thesis by simp
  qed
qed

text \<open>
  Claim C4. When spanning is enabled and the current line has no match from its starting
  index, the following lines are visited in increasing order from
  \<open>startLine = max(since ? since.line : 0, lineNo + 1)\<close>. If \<open>m\<close> is the first of them up
  to the last line that has a match, the result is that line's first match (from index
  0, or on the line of \<open>since\<close> from the first token with \<open>start >= since.ch\<close>), and the
  lines fetched are exactly \<open>startLine, ..., m\<close>: no line after \<open>m\<close> is fetched. If none
  has a match the result is \<open>null\<close> and the lines \<open>startLine, ..., lastLine\<close> were fetched.
  In the example editor, where line 0 has no match for \<open>/x/\<close> and \<open>{2,5,"x"}\<close> is the
  second token of line 1, the result is \<open>{lineNo: 1, token: {2,5,"x"}, i_token: 1}\<close>
  and only line 1 is fetched.
\<close>

theorem findNext_span_lines:
  assumes tokens: "lineTokens this = Some tokens"
    and si: "start_index (Flag True) since (lineNo this) tokens (i_token this) = Inr (int i1)"
    and nomatch: "\<forall>k. i1 \<le> k \<and> k < length tokens \<longrightarrow> \<not> holds cond (tokens ! k)"
    and agree: "\<forall>n. lineNo this < n \<and> n \<le> lastLine cm \<longrightarrow> own_number cm n"
    and sl: "startLine = max (case since of None \<Rightarrow> 0 | Some p \<Rightarrow> line p) (lineNo this + 1)"
  shows "(\<forall>m. startLine \<le> m \<and> m \<le> lastLine cm \<and>
              match_index cm cond since m < length (getLineTokens cm m) \<and>
              (\<forall>n. startLine \<le> n \<and> n < m \<longrightarrow>
                     \<not> match_index cm cond since n < length (getLineTokens cm n))
            \<longrightarrow> findNext cm cond (Flag True) since this =
                  (Inr (Some \<lparr>found_lineNo = m,
                               found_token = getLineTokens cm m ! match_index cm cond since m,
                               found_i_token = match_index cm cond since m\<rparr>),
                   [startLine..m], this)) \<and>
         ((\<forall>n. startLine \<le> n \<and> n \<le> lastLine cm \<longrightarrow>
                 \<not> match_index cm cond since n < length (getLineTokens cm n))
            \<longrightarrow> findNext cm cond (Flag True) since this = (Inr None, [startLine..lastLine cm], this))"
proof -
  let ?st0 = "\<lparr>s_lineNo = lineNo this, s_tokens = tokens,
               s_i_token = int (seek (holds cond) tokens i1), s_token = None, s_fetched = []\<rparr>"
  have cur: "\<not> seek (holds cond) tokens i1 < length tokens"
    by (rule seek_no_match [OF nomatch])
  have after: "lineNo this < startLine" using sl by simp
  have unfold: "findNext cm cond (Flag True) since this =
     (let st = eachLine_list cm [startLine..lastLine cm] (visitLine cm cond since) ?st0
      in ((case s_token st of
             None \<Rightarrow> Inr None
           | Some t \<Rightarrow> Inr (Some \<lparr>found_lineNo = s_lineNo st, found_token = t,
                                  found_i_token = nat (s_i_token st)\<rparr>)),
          s_fetched st, this))"
    unfolding sl by (rule findNext_span_unfold [OF tokens si cur])
  have hit: "findNext cm cond (Flag True) since this =
                  (Inr (Some \<lparr>found_lineNo = m,
                               found_token = getLineTokens cm m ! match_index cm cond since m,
                               found_i_token = match_index cm cond since m\<rparr>),
                   [startLine..m], this)"
    if m: "startLine \<le> m" "m \<le> lastLine cm"
      and mh: "match_index cm cond since m < length (getLineTokens cm m)"
      and first: "\<forall>n. startLine \<le> n \<and> n < m \<longrightarrow>
                     \<not> match_index cm cond since n < length (getLineTokens cm n)"
    for m
  proof -
    have split: "[startLine..lastLine cm] = [startLine..m - 1] @ m # [m + 1..lastLine cm]"
      using m by (rule upto_split3)
    have fetched: "[startLine..m - 1] @ [m] = [startLine..m]"
      using m(1) by (simp add: upto_rec2)
    have "eachLine_list cm ([startLine..m - 1] @ m # [m + 1..lastLine cm]) (visitLine cm cond since) ?st0 =
       ?st0\<lparr>s_lineNo := m, s_tokens := getLineTokens cm m,
          s_i_token := int (match_index cm cond since m),
          s_fetched := s_fetched ?st0 @ [startLine..m - 1] @ [m],
          s_token := Some (getLineTokens cm m ! match_index cm cond since m)\<rparr>"
    proof (rule eachLine_list_hit)
      fix n assume "n \<in> set [startLine..m - 1]"
      then have n: "startLine \<le> n" "n < m" by simp_all
      with agree after m(2) show "own_number cm n" by simp
      from first n show "\<not> match_index cm cond since n < length (getLineTokens cm n)" by simp
    next
      from agree after m show "own_number cm m" by simp
      show "match_index cm cond since m < length (getLineTokens cm m)" by (rule mh)
    qed
    with split fetched unfold show ?thesis by (simp add: Let_def)
  qed
  have miss: "findNext cm cond (Flag True) since this = (Inr None, [startLine..lastLine cm], this)"
    if none: "\<forall>n. startLine \<le> n \<and> n \<le> lastLine cm \<longrightarrow>
                 \<not> match_index cm cond since n < length (getLineTokens cm n)"
  proof -
    have "s_token (eachLine_list cm [startLine..lastLine cm] (visitLine cm cond since) ?st0) = s_token ?st0 \<and>
          s_fetched (eachLine_list cm [startLine..lastLine cm] (visitLine cm cond since) ?st0)
            = s_fetched ?st0 @ [startLine..lastLine cm]"
    proof (rule eachLine_list_miss)
      fix n assume "n \<in> set [startLine..lastLine cm]"
      then have n: "startLine \<le> n" "n \<le> lastLine cm" by simp_all
      with agree after show "own_number cm n" by simp
      from none n show "\<not> match_index cm cond since n < length (getLineTokens cm n)" by simp
    qed
    with unfold show ?thesis by (simp add: Let_def)
  qed
  from hit miss show ?thesis by blast
qed

theorem findNext_span_lines_witness:
  "lineTokens (on_line0 0) = Some (example_lines 0) \<and>
   start_index (Flag True) None (lineNo (on_line0 0)) (example_lines 0) (i_token (on_line0 0)) = Inr 1 \<and>
   \<not> holds (re_char CHR ''x'') (example_lines 0 ! 1) \<and>
   \<not> holds (re_char CHR ''x'') (example_lines 0 ! 2) \<and>
   match_index example_editor (re_char CHR ''x'') None 1 = 1 \<and>
   findNext example_editor (re_char CHR ''x'') (Flag True) None (on_line0 0) =
     (Inr (Some \<lparr>found_lineNo = 1, found_token = tok 2 5 ''x'', found_i_token = 1\<rparr>), [1], on_line0 0)"
proof -
  have h1: "lineTokens (on_line0 0) = Some (example_lines 0)" by (simp add: on_line0_def)
  have h2: "start_index (Flag True) None (lineNo (on_line0 0)) (example_lines 0) (i_token (on_line0 0)) = Inr (int 1)"
    by (simp add: start_index_def on_line0_def)
  have h3: "\<forall>k. 1 \<le> k \<and> k < length (example_lines 0) \<longrightarrow> \<not> holds (re_char CHR ''x'') (example_lines 0 ! k)"
    by (simp add: example_lines_def re_char_def tok_def to_string_def less_Suc_eq all_conj_distrib nth_Cons')
  have h4: "\<forall>n. lineNo (on_line0 0) < n \<and> n \<le> lastLine example_editor \<longrightarrow>
              own_number example_editor n"
    by (simp add: example_editor_def own_number_def on_line0_def)
  have h5: "(1::int) = max (case None of None \<Rightarrow> 0 | Some p \<Rightarrow> line p) (lineNo (on_line0 0) + 1)"
    by (simp add: on_line0_def)
  have m: "match_index example_editor (re_char CHR ''x'') None 1 = 1"
    by (simp add: match_index_def since_index_def seek.simps example_editor_def example_lines_def
          re_char_def tok_def to_string_def)
  have t: "getLineTokens example_editor 1 ! 1 = tok 2 5 ''x''"
    and l: "length (getLineTokens example_editor 1) = 2" and ll: "lastLine example_editor = 3"
    by (simp_all add: example_editor_def example_lines_def)
  from spec [OF conjunct1 [OF findNext_span_lines [OF h1 h2 h3 h4 h5]], of 1]
  have "findNext example_editor (re_char CHR ''x'') (Flag True) None (on_line0 0) =
     (Inr (Some \<lparr>found_lineNo = 1, found_token = tok 2 5 ''x'', found_i_token = 1\<rparr>), [1], on_line0 0)"
    using m t l ll by simp
  moreover have "\<not> holds (re_char CHR ''x'') (example_lines 0 ! 1)"
    and "\<not> holds (re_char CHR ''x'') (example_lines 0 ! 2)"
    by (simp_all add: example_lines_def re_char_def tok_def to_string_def)
  ultimately show ?thesis using h1 h2 m by simp
qed


section \<open>The regular expression of a plain tag\<close>

text \<open>
  When \<open>style\<close> stands for itself, the pattern asks for \<open>style\<close> among the tags of the
  subject.
\<close>

lemma style_here_iff:
  "list_all (\<lambda>c. \<not> is_space c) style \<Longrightarrow>
     style_here style s \<longleftrightarrow> takeWhile (\<lambda>x. \<not> is_space x) s = style"
proof (induction style s rule: style_here.induct)
  case (1 s)
  then show ?case by (cases s) auto
next
  case (2 p ps)
  then show ?case by simp
next
  case (3 p ps c cs)
  then show ?case by auto
qed

lemma style_from_word:
  assumes "style \<noteq> []" and "list_all (\<lambda>c. \<not> is_space c) style"
  shows "style_from False style s = style_from True style (dropWhile (\<lambda>x. \<not> is_space x) s)"
proof (induction s)
  case Nil
  from assms(1) show ?case by (cases style) simp_all
next
  case (Cons c cs)
  show ?case
  proof (cases "is_space c")
    case True
    have "\<not> style_here style (c # cs)"
      using assms True by (cases style) auto
    with True show ?thesis by simp
  next
    case False
    with Cons show ?thesis by simp
  qed
qed

lemma style_from_tags:
  assumes "style \<noteq> []" and "list_all (\<lambda>c. \<not> is_space c) style"
  shows "style_from True style s \<longleftrightarrow> style \<in> set (tags s)"
proof (induction s rule: tags.induct)
  case 1
  from assms(1) show ?case by (cases style) simp_all
next
  case (2 c cs)
  show ?case
  proof (cases "is_space c")
    case True
    have "\<not> style_here style (c # cs)"
      using assms True by (cases style) auto
    with True 2 show ?thesis by simp
  next
    case False
    have "style_from True style (c # cs) \<longleftrightarrow>
          style_here style (c # cs) \<or> style_from False style cs"
      using False by simp
    also have "\<dots> \<longleftrightarrow> takeWhile (\<lambda>x. \<not> is_space x) (c # cs) = style \<or>
          style_from True style (dropWhile (\<lambda>x. \<not> is_space x) cs)"
      using style_here_iff [OF assms(2)] style_from_word [OF assms] by simp
    also have "\<dots> \<longleftrightarrow> style \<in> set (tags (c # cs))"
      using False 2(2) by auto
    finally show ?thesis .
  qed
qed


lemma is_tag_no_space: "is_tag style \<Longrightarrow> style \<noteq> [] \<and> list_all (\<lambda>c. \<not> is_space c) style"
  by (auto simp: is_tag_def list_all_iff)

lemma is_tag_plain: "is_tag style \<Longrightarrow> list_all (\<lambda>c. c \<notin> set syntax_chars) style"
  by (auto simp: is_tag_def list_all_iff)

text \<open>The parser reads characters without a meaning as themselves.\<close>

lemma parse_plain:
  "list_all (\<lambda>c. c \<notin> set syntax_chars) style \<Longrightarrow>
   parse stack alts terms q None (style @ rest) =
   parse stack alts (rev (map (\<lambda>c. Sym (\<lambda>x. x = c)) style) @ terms)
     (if style = [] then q else Atom) None rest"
proof (induction style arbitrary: terms q)
  case Nil
  then show ?case by simp
next
  case (Cons c cs)
  from Cons.prems have c: "c \<notin> set syntax_chars"
    and cs: "list_all (\<lambda>c. c \<notin> set syntax_chars) cs" by simp_all
  from c have "parse stack alts terms q None ((c # cs) @ rest) =
      parse stack alts (Sym (\<lambda>x. x = c) # terms) Atom None (cs @ rest)"
    by (simp add: syntax_chars_def)
  also have "\<dots> = parse stack alts
      (rev (map (\<lambda>c. Sym (\<lambda>x. x = c)) cs) @ Sym (\<lambda>x. x = c) # terms)
      (if cs = [] then Atom else Atom) None rest"
    by (rule Cons.IH [OF cs])
  finally show ?case by simp
qed

lemma parse_style_pattern:
  assumes "list_all (\<lambda>c. c \<notin> set syntax_chars) style"
  shows "parse [] [] [] NoAtom None (style_pattern style) = Inr (style_regex style)"
proof -
  let ?G1 = "Alt (Seq Bol Eps) (Seq (Sym is_space) Eps)"
  let ?G2 = "Alt (Seq (Sym is_space) Eps) (Seq Eol Eps)"
  let ?suffix = "''(?:'' @ [CHR 0x5C] @ ''s|$)''"
  let ?lits = "map (\<lambda>c. Sym (\<lambda>x. x = c)) style"
  have "parse [] [] [] NoAtom None (style_pattern style) =
        parse [] [] [?G1] Atom None (style @ ?suffix)"
    by (simp add: style_pattern_def escape_def close_def seq_of_def)
  also have "\<dots> = parse [] [] (rev ?lits @ [?G1]) (if style = [] then Atom else Atom) None ?suffix"
    by (rule parse_plain [OF assms])
  also have "\<dots> = Inr (close [] (?G2 # rev ?lits @ [?G1]))"
    by (simp add: escape_def close_def seq_of_def)
  also have "close [] (?G2 # rev ?lits @ [?G1]) = style_regex style"
    by (simp add: close_def seq_of_def style_regex_def foldr_conv_fold)
  finally show ?thesis .
qed


lemma match_style_end:
  "match (foldr Seq (map (\<lambda>c. Sym (\<lambda>x. x = c)) style)
            (Seq (Alt (Seq (Sym is_space) Eps) (Seq Eol Eps)) Eps)) (prev, s) (\<lambda>s. True) =
   style_here style s"
proof (induction style arbitrary: prev s)
  case Nil
  show ?case by (cases s) simp_all
next
  case (Cons c cs)
  show ?case
  proof (cases s)
    case Nil
    then show ?thesis by simp
  next
    case (Cons x xs)
    with Cons.IH [of "Some x" xs] show ?thesis by auto
  qed
qed

lemma match_style_regex:
  "match (style_regex style) (prev, s) (\<lambda>s. True) =
   ((prev = None \<and> style_here style s) \<or>
    (case s of [] \<Rightarrow> False | c # cs \<Rightarrow> is_space c \<and> style_here style cs))"
  unfolding style_regex_def by (cases s) (simp_all add: match_style_end)

lemma style_from_flag:
  "style_from b style s = ((b \<and> style_here style s) \<or> style_from False style s)"
  by (cases s) auto

lemma test_from_style_regex:
  "test_from (style_regex style) prev s = style_from (prev = None) style s"
proof (induction s arbitrary: prev)
  case Nil
  show ?case by (simp add: match_style_regex)
next
  case (Cons c cs)
  have "test_from (style_regex style) prev (c # cs) =
        ((prev = None \<and> style_here style (c # cs)) \<or> (is_space c \<and> style_here style cs) \<or>
         style_from False style cs)"
    using Cons [of "Some c"] by (simp add: match_style_regex)
  also have "\<dots> = style_from (prev = None) style (c # cs)"
    using style_from_flag [of "is_space c" style cs] by auto
  finally show ?case .
qed

text \<open>
  For a plain tag the regular expression is built, and it accepts exactly the types that
  carry the tag.
\<close>

lemma styleRE_plain_tag:
  assumes "is_tag style"
  shows "\<exists>re. styleRE style = Inr re \<and> (\<forall>s. re s = (style \<in> set (tags s)))"
proof -
  from assms have ns: "style \<noteq> []" "list_all (\<lambda>c. \<not> is_space c) style"
    using is_tag_no_space by blast+
  have "styleRE style = Inr (test (style_regex style))"
    by (simp add: styleRE_def new_RegExp_def parse_style_pattern [OF is_tag_plain [OF assms]])
  moreover have "test (style_regex style) s = (style \<in> set (tags s))" for s
    by (simp add: test_def test_from_style_regex style_from_tags [OF ns])
  ultimately show ?thesis by blast
qed

lemma test_type_plain_tag:
  assumes "is_tag style" and "styleRE style = Inr re"
  shows "test_type re t = (style \<in> set (tags (to_string (type t))))"
  using styleRE_plain_tag [OF assms(1)] assms(2) by (auto simp: test_type_def)

section \<open>\<open>expandRange\<close>: building the regular expression\<close>

lemmas engine_simps = styleRE_def new_RegExp_def style_pattern_def close_def seq_of_def
  quantify_def escape_def test_def is_space_def is_digit_def is_word_def
  is_line_terminator_def at_boundary_def

lemmas style_simps = expandRange_def test_type_def to_string_def tok_def seek.simps
  extend_right.simps

text \<open>
  When the regular expression cannot be built, \<open>expandRange\<close> raises at line 196, before
  it looks at the tokens.
\<close>

lemma expandRange_raises: "styleRE style = Inl e \<Longrightarrow> expandRange cm pos style = Inl e"
  by (simp add: expandRange_def)

text \<open>
  When it can, the result is \<open>null\<close> exactly when every token of the line ends before
  \<open>pos.ch\<close>, whatever the style is.
\<close>

lemma expandRange_null_iff:
  assumes "styleRE style = Inr re"
  shows "\<exists>r. expandRange cm pos style = Inr r \<and>
           (r = None \<longleftrightarrow> (\<forall>t \<in> set (getLineTokens cm (line pos)). end_ch t < ch pos))"
proof -
  let ?T = "getLineTokens cm (line pos)"
  let ?i = "seek (\<lambda>t. end_ch t \<ge> ch pos) ?T 0"
  have "?i = length ?T \<longleftrightarrow> (\<forall>k. 0 \<le> k \<and> k < length ?T \<longrightarrow> \<not> ch pos \<le> end_ch (?T ! k))"
    by (rule seek_none_iff) simp
  also have "\<dots> \<longleftrightarrow> (\<forall>t \<in> set ?T. end_ch t < ch pos)"
    by (auto simp: all_set_conv_all_nth)
  finally have "?i = length ?T \<longleftrightarrow> (\<forall>t \<in> set ?T. end_ch t < ch pos)" .
  with assms show ?thesis
    by (simp add: expandRange_def Let_def)
qed

lemma expandRange_no_tokens:
  assumes "getLineTokens cm (line pos) = []"
  shows "expandRange cm pos style = (case styleRE style of Inl e \<Rightarrow> Inl e | Inr re \<Rightarrow> Inr None)"
  using assms by (simp add: expandRange_def seek_past split: sum.split)

lemma expandRange_plain_tag_no_tokens:
  assumes "is_tag style" and "getLineTokens cm (line pos) = []"
  shows "expandRange cm pos style = Inr None"
proof -
  from styleRE_plain_tag [OF assms(1)] obtain re where "styleRE style = Inr re" by blast
  with expandRange_no_tokens [OF assms(2), of style] show ?thesis by simp
qed

text \<open>
  Claim C10. For every position \<open>pos\<close>, when the editor has no tokens for the line of
  \<open>pos\<close>, \<open>expandRange\<close> should return \<open>null\<close>, also for \<open>pos.ch = 0\<close>. The code returns
  \<open>null\<close> there whenever it gets as far as the tokens (\<open>expandRange_no_tokens\<close>), but it
  pastes \<open>style\<close> into the pattern without escaping it: with the style \<open>"("\<close> the source
  \<^verbatim>\<open>(?:^|\s)((?:\s|$)\<close> has a group that is not closed, \<open>new RegExp\<close> raises
  a \<open>SyntaxError\<close>, and on the empty line 2 of the second example editor
  \<open>expandRange(cm, {line: 2, ch: 0}, "(")\<close> raises instead of returning \<open>null\<close>.
\<close>

theorem expandRange_no_tokens_raises:
  "getLineTokens style_editor (line \<lparr>line = 2, ch = 0\<rparr>) = [] \<and>
   styleRE ''('' = Inl SyntaxError \<and>
   expandRange style_editor \<lparr>line = 2, ch = 0\<rparr> ''('' = Inl SyntaxError"
proof -
  have "styleRE ''('' = Inl SyntaxError" by (simp add: engine_simps)
  then show ?thesis
    by (simp add: expandRange_def style_editor_def style_lines_def)
qed

section \<open>\<open>expandRange\<close>: the range around a styled position\<close>

lemma contiguous_end_mono:
  assumes "contiguous_from a ts" and "j \<le> k" and "k < length ts"
  shows "end_ch (ts ! j) \<le> end_ch (ts ! k)"
proof (cases "j = k")
  case True
  then show ?thesis by simp
next
  case False
  with assms(2) have "j < k" by simp
  from contiguous_end_le_start [OF assms(1) this assms(3)] contiguous_nth [OF assms(1,3)]
  show ?thesis by simp
qed

lemma extend_right_stay:
  "\<not> (i < length tokens \<and> matches (tokens ! i)) \<Longrightarrow> extend_right matches tokens i x = x"
  by (subst extend_right.simps) auto

lemma extend_right_end:
  "i < length tokens \<Longrightarrow> matches (tokens ! i) \<Longrightarrow>
     \<exists>k. i \<le> k \<and> k < length tokens \<and> extend_right matches tokens i x = end_ch (tokens ! k)"
proof (induction matches tokens i x rule: extend_right.induct)
  case (1 matches tokens i x)
  have unfold: "extend_right matches tokens i x =
      extend_right matches tokens (Suc i) (end_ch (tokens ! i))"
    using "1.prems" by (subst extend_right.simps) simp
  show ?case
  proof (cases "Suc i < length tokens \<and> matches (tokens ! Suc i)")
    case True
    with "1.IH" [OF "1.prems"] obtain k where "Suc i \<le> k" "k < length tokens"
      "extend_right matches tokens (Suc i) (end_ch (tokens ! i)) = end_ch (tokens ! k)"
      by blast
    with unfold show ?thesis by (intro exI [of _ k]) simp
  next
    case False
    from extend_right_stay [of "Suc i" tokens matches "end_ch (tokens ! i)"] False
      unfold "1.prems"(1) show ?thesis
      by (intro exI [of _ i]) simp
  qed
qed

lemma extend_left_cases:
  "extend_left matches tokens i x = x \<or>
   (\<exists>k\<le>i. \<not> matches (tokens ! k) \<and> extend_left matches tokens i x = end_ch (tokens ! k))"
proof (induction i)
  case 0
  then show ?case by auto
next
  case (Suc i)
  show ?case
  proof (cases "matches (tokens ! Suc i)")
    case False
    then show ?thesis by auto
  next
    case True
    with Suc show ?thesis by (auto intro: le_SucI)
  qed
qed

text \<open>
  Whatever the style is: when the tokens of the line are contiguous and the regular
  expression accepts the type of the token that \<open>pos.ch\<close> lies in, the range returned
  is on the line of \<open>pos\<close>, contains \<open>pos.ch\<close>, and has its ends on token boundaries.
\<close>

lemma expandRange_re_bounds:
  assumes re: "styleRE style = Inr re"
    and cont: "contiguous_from 0 (getLineTokens cm (line pos))"
    and m: "m < length (getLineTokens cm (line pos))"
    and lo: "start (getLineTokens cm (line pos) ! m) \<le> ch pos"
    and hi: "ch pos < end_ch (getLineTokens cm (line pos) ! m)"
    and mt: "test_type re (getLineTokens cm (line pos) ! m)"
  shows "\<exists>r. expandRange cm pos style = Inr (Some r) \<and>
     line (from_pos r) = line pos \<and> line (to_pos r) = line pos \<and>
     ch (from_pos r) \<le> ch pos \<and> ch pos \<le> ch (to_pos r) \<and>
     (ch (from_pos r) = 0 \<or> (\<exists>t \<in> set (getLineTokens cm (line pos)). ch (from_pos r) = end_ch t)) \<and>
     (\<exists>t \<in> set (getLineTokens cm (line pos)). ch (to_pos r) = end_ch t)"
proof -
  let ?T = "getLineTokens cm (line pos)"
  let ?c = "ch pos"
  let ?i = "seek (\<lambda>t. end_ch t \<ge> ?c) ?T 0"
  let ?M = "test_type re"
  let ?to = "extend_right ?M ?T ?i ?c"
  let ?from = "extend_left ?M ?T ?i 0"
  have im: "?i \<le> m"
  proof (rule ccontr)
    assume "\<not> ?i \<le> m"
    then have "m < ?i" by simp
    from seek_first [of 0 m "\<lambda>t. end_ch t \<ge> ?c" ?T] this hi show False by simp
  qed
  with m have il: "?i < length ?T" by simp
  from seek_stop [OF il] have iend: "?c \<le> end_ch (?T ! ?i)" .
  have c0: "0 \<le> ?c" using contiguous_nth [OF cont m] lo by simp
  have nomatch: "end_ch (?T ! ?i) = ?c" if "\<not> ?M (?T ! ?i)"
  proof -
    from that mt have "?i \<noteq> m" by auto
    with im have "?i < m" by simp
    from contiguous_end_le_start [OF cont this m] lo iend show ?thesis by simp
  qed
  have res: "expandRange cm pos style =
      Inr (Some \<lparr>from_pos = \<lparr>line = line pos, ch = ?from\<rparr>, to_pos = \<lparr>line = line pos, ch = ?to\<rparr>\<rparr>)"
    using re il by (simp add: expandRange_def Let_def)
  have to: "?c \<le> ?to \<and> (\<exists>t \<in> set ?T. ?to = end_ch t)"
  proof (cases "?M (?T ! ?i)")
    case True
    from extend_right_end [of ?i ?T ?M ?c] il True obtain k where
      k: "?i \<le> k" "k < length ?T" "?to = end_ch (?T ! k)" by blast
    from contiguous_end_mono [OF cont k(1,2)] iend k(3) have "?c \<le> ?to" by simp
    moreover have "?T ! k \<in> set ?T" using k(2) by simp
    ultimately show ?thesis using k(3) by blast
  next
    case False
    then have "?to = ?c" by (simp add: extend_right_stay)
    moreover have "?T ! ?i \<in> set ?T" using il by simp
    ultimately show ?thesis using nomatch [OF False] by (metis order_refl)
  qed
  have "from": "?from \<le> ?c \<and> (?from = 0 \<or> (\<exists>t \<in> set ?T. ?from = end_ch t))"
  proof -
    from extend_left_cases [of ?M ?T ?i 0]
    consider "?from = 0" | k where "k \<le> ?i" "\<not> ?M (?T ! k)" "?from = end_ch (?T ! k)"
      by blast
    then show ?thesis
    proof cases
      case 1
      with c0 show ?thesis by simp
    next
      case (2 k)
      have kin: "?T ! k \<in> set ?T" using 2(1) il by simp
      have "end_ch (?T ! k) \<le> ?c"
      proof (cases "k = ?i")
        case True
        with 2(2) nomatch show ?thesis by simp
      next
        case False
        with 2(1) have "k < ?i" by simp
        from seek_first [of 0 k "\<lambda>t. end_ch t \<ge> ?c" ?T] this show ?thesis by simp
      qed
      with 2(3) kin show ?thesis by auto
    qed
  qed
  from res to "from" show ?thesis by simp
qed

text \<open>
  So for a plain tag: when \<open>pos.ch\<close> lies inside a token that carries the tag, the range
  is as above.
\<close>

lemma expandRange_plain_tag_bounds:
  assumes tag: "is_tag style"
    and cont: "contiguous_from 0 (getLineTokens cm (line pos))"
    and m: "m < length (getLineTokens cm (line pos))"
    and lo: "start (getLineTokens cm (line pos) ! m) \<le> ch pos"
    and hi: "ch pos < end_ch (getLineTokens cm (line pos) ! m)"
    and ty: "type (getLineTokens cm (line pos) ! m) = Some ty"
    and mem: "style \<in> set (tags ty)"
  shows "\<exists>r. expandRange cm pos style = Inr (Some r) \<and>
     line (from_pos r) = line pos \<and> line (to_pos r) = line pos \<and>
     ch (from_pos r) \<le> ch pos \<and> ch pos \<le> ch (to_pos r) \<and>
     (ch (from_pos r) = 0 \<or> (\<exists>t \<in> set (getLineTokens cm (line pos)). ch (from_pos r) = end_ch t)) \<and>
     (\<exists>t \<in> set (getLineTokens cm (line pos)). ch (to_pos r) = end_ch t)"
proof -
  from styleRE_plain_tag [OF tag] obtain re where re: "styleRE style = Inr re" by blast
  have "test_type re (getLineTokens cm (line pos) ! m)"
    using test_type_plain_tag [OF tag re] ty mem by (simp add: to_string_def)
  from expandRange_re_bounds [OF re cont m lo hi this] show ?thesis .
qed

text \<open>
  Claim C6. When the tokens of the line of \<open>pos\<close> are contiguous and \<open>pos.ch\<close> lies inside
  a token whose type has \<open>style\<close> among its white-space-separated tags, the range that
  \<open>expandRange\<close> returns should be on the line of \<open>pos\<close>, with \<open>from.ch \<le> pos.ch \<le> to.ch\<close>
  and both ends on token boundaries. The code pastes \<open>style\<close> into the pattern without
  escaping it, so a style with a syntax character of regular expressions is not matched
  as the tag it is. On the line \<open>[{0,4,"a+"}]\<close> with \<open>pos.ch = 2\<close> and \<open>style = "a+"\<close> the
  precondition holds (the only tag of the type \<open>"a+"\<close> is \<open>"a+"\<close>), but the pattern
  \<^verbatim>\<open>(?:^|\s)a+(?:\s|$)\<close> does not accept \<open>"a+"\<close>, and the result is
  \<open>{from: {ch: 4}, to: {ch: 2}}\<close>: \<open>from.ch > pos.ch\<close>, and \<open>to.ch\<close> is no token boundary.
\<close>

theorem expandRange_pasted_style_bounds:
  "getLineTokens style_editor (line \<lparr>line = 0, ch = 2\<rparr>) = [tok 0 4 ''a+''] \<and>
   contiguous_from 0 [tok 0 4 ''a+''] \<and>
   start (tok 0 4 ''a+'') \<le> 2 \<and> 2 < end_ch (tok 0 4 ''a+'') \<and>
   type (tok 0 4 ''a+'') = Some ''a+'' \<and> ''a+'' \<in> set (tags ''a+'') \<and>
   (\<exists>re. styleRE ''a+'' = Inr re \<and> \<not> test_type re (tok 0 4 ''a+'')) \<and>
   expandRange style_editor \<lparr>line = 0, ch = 2\<rparr> ''a+'' =
     Inr (Some \<lparr>from_pos = \<lparr>line = 0, ch = 4\<rparr>, to_pos = \<lparr>line = 0, ch = 2\<rparr>\<rparr>)"
proof -
  have toks: "getLineTokens style_editor (line \<lparr>line = 0, ch = 2\<rparr>) = [tok 0 4 ''a+'']"
    by (simp add: style_editor_def style_lines_def)
  have pre: "contiguous_from 0 [tok 0 4 ''a+'']" "start (tok 0 4 ''a+'') \<le> 2"
    "2 < end_ch (tok 0 4 ''a+'')" "type (tok 0 4 ''a+'') = Some ''a+''"
    by (simp_all add: tok_def)
  have tag: "''a+'' \<in> set (tags ''a+'')" by (simp add: is_space_def)
  obtain re where re: "styleRE ''a+'' = Inr re" and no: "\<not> re ''a+''"
    by (simp add: engine_simps)
  then have t: "\<not> test_type re (tok 0 4 ''a+'')" by (simp add: test_type_def to_string_def tok_def)
  have "expandRange style_editor \<lparr>line = 0, ch = 2\<rparr> ''a+'' =
     Inr (Some \<lparr>from_pos = \<lparr>line = 0, ch = 4\<rparr>, to_pos = \<lparr>line = 0, ch = 2\<rparr>\<rparr>)"
    using re no by (simp add: style_simps style_editor_def style_lines_def)
  with toks pre tag re t show ?thesis by blast
qed

text \<open>
  Claim C7. \<open>expandRange\<close> should read the type of a token as a set of tags separated by
  white space and ask for \<open>style\<close> itself to be one of them. For the spec's example it
  does: with the line tokens \<open>[{0,4,"em"},{4,10,"em strong"},{10,14,"plain"}]\<close>,
  \<open>pos.ch = 6\<close> and \<open>style = "em"\<close> the result is \<open>{from: {ch: 0}, to: {ch: 10}}\<close>. But
  \<open>style\<close> is pasted into the pattern without escaping, and a style with a syntax character
  of regular expressions is then not compared as a tag: with \<open>style = "e."\<close> the pattern
  \<^verbatim>\<open>(?:^|\s)e.(?:\s|$)\<close> accepts the type \<open>"e."\<close> and also the type \<open>"em"\<close>, whose
  only tag is \<open>"em"\<close>. On the line \<open>[{0,4,"e."},{4,8,"em"}]\<close> with \<open>pos.ch = 2\<close>, inside the
  token that carries the style, the range runs over the second token too: the result is
  \<open>{from: {ch: 0}, to: {ch: 8}}\<close>, where membership gives \<open>{from: {ch: 0}, to: {ch: 4}}\<close>.
\<close>

theorem expandRange_pasted_style_accepts:
  "tags ''e.'' = [''e.''] \<and> tags ''em'' = [''em''] \<and> ''e.'' \<notin> set (tags ''em'') \<and>
   (\<exists>re. styleRE ''e.'' = Inr re \<and> test_type re (tok 0 4 ''e.'') \<and> test_type re (tok 4 8 ''em'')) \<and>
   getLineTokens style_editor (line \<lparr>line = 1, ch = 2\<rparr>) = [tok 0 4 ''e.'', tok 4 8 ''em''] \<and>
   expandRange style_editor \<lparr>line = 1, ch = 2\<rparr> ''e.'' =
     Inr (Some \<lparr>from_pos = \<lparr>line = 1, ch = 0\<rparr>, to_pos = \<lparr>line = 1, ch = 8\<rparr>\<rparr>) \<and>
   getLineTokens example_editor (line \<lparr>line = 3, ch = 6\<rparr>) =
     [tok 0 4 ''em'', tok 4 10 ''em strong'', tok 10 14 ''plain''] \<and>
   expandRange example_editor \<lparr>line = 3, ch = 6\<rparr> ''em'' =
     Inr (Some \<lparr>from_pos = \<lparr>line = 3, ch = 0\<rparr>, to_pos = \<lparr>line = 3, ch = 10\<rparr>\<rparr>)"
proof -
  have tag: "tags ''e.'' = [''e.'']" "tags ''em'' = [''em'']" by (simp_all add: is_space_def)
  obtain re where re: "styleRE ''e.'' = Inr re" and yes: "re ''e.''" "re ''em''"
    by (simp add: engine_simps)
  then have t: "test_type re (tok 0 4 ''e.'')" "test_type re (tok 4 8 ''em'')"
    by (simp_all add: test_type_def to_string_def tok_def)
  have toks: "getLineTokens style_editor (line \<lparr>line = 1, ch = 2\<rparr>) =
      [tok 0 4 ''e.'', tok 4 8 ''em'']"
    by (simp add: style_editor_def style_lines_def)
  have r1: "expandRange style_editor \<lparr>line = 1, ch = 2\<rparr> ''e.'' =
     Inr (Some \<lparr>from_pos = \<lparr>line = 1, ch = 0\<rparr>, to_pos = \<lparr>line = 1, ch = 8\<rparr>\<rparr>)"
    using re yes
    by (simp add: style_simps style_editor_def style_lines_def extend_right.simps)
  have toks3: "getLineTokens example_editor (line \<lparr>line = 3, ch = 6\<rparr>) =
     [tok 0 4 ''em'', tok 4 10 ''em strong'', tok 10 14 ''plain'']"
    by (simp add: example_editor_def example_lines_def)
  obtain re' where re': "styleRE ''em'' = Inr re'" and em: "re' ''em''" "re' ''em strong''"
      "\<not> re' ''plain''"
    by (simp add: engine_simps)
  have r2: "expandRange example_editor \<lparr>line = 3, ch = 6\<rparr> ''em'' =
     Inr (Some \<lparr>from_pos = \<lparr>line = 3, ch = 0\<rparr>, to_pos = \<lparr>line = 3, ch = 10\<rparr>\<rparr>)"
    using re' em by (simp add: style_simps example_editor_def example_lines_def)
  from tag re t toks r1 toks3 r2 show ?thesis by auto
qed
section \<open>Not found is \<open>null\<close>\<close>

text \<open>
  Claim C8 says that both searches report "not found" as \<open>null\<close> and not as an exception:
  \<open>findNext\<close> returns \<open>null\<close> exactly when no token in the range searched satisfies the
  condition, and \<open>expandRange\<close> returns \<open>null\<close> exactly when no token of the line has
  \<open>end >= pos.ch\<close>. For \<open>findNext\<close> it fails with a negative start index: the loop reads
  \<open>tokens[-1]\<close>, which is \<open>undefined\<close>, and a function condition that accepts \<open>undefined\<close>
  ends the scan there with \<open>token = undefined\<close>. On the tokens
  \<open>[{0,3,"a"},{3,6,"b"},{6,9,"a"}]\<close>, \<open>findNext(() => true, -1)\<close> returns \<open>null\<close> although
  every token of the line satisfies the condition.
\<close>

theorem not_found_is_null_counterexample:
  "lineTokens (on_line0 0) = Some (example_lines 0) \<and>
   holds (Func (\<lambda>t. True)) (example_lines 0 ! 0) \<and>
   holds (Func (\<lambda>t. True)) (example_lines 0 ! 1) \<and>
   holds (Func (\<lambda>t. True)) (example_lines 0 ! 2) \<and>
   findNext example_editor (Func (\<lambda>t. True)) (Index (- 1)) None (on_line0 0) =
     (Inr None, [], on_line0 0)"
  by (simp add: findNext_def start_index_def scan_line.simps token_at_def on_line0_def
        example_lines_def)

lemma findNext_null_iff:
  assumes tokens: "lineTokens this = Some tokens"
    and si: "start_index varg since (lineNo this) tokens (i_token this) = Inr (int i1)"
    and agree: "\<forall>n. lineNo this < n \<and> n \<le> lastLine cm \<longrightarrow> own_number cm n"
    and sl: "startLine = max (case since of None \<Rightarrow> 0 | Some p \<Rightarrow> line p) (lineNo this + 1)"
  shows "\<exists>res fetched. findNext cm cond varg since this = (Inr res, fetched, this) \<and>
     (res = None \<longleftrightarrow>
        (\<forall>k. i1 \<le> k \<and> k < length tokens \<longrightarrow> \<not> holds cond (tokens ! k)) \<and>
        (varg = Flag True \<longrightarrow>
           (\<forall>n. startLine \<le> n \<and> n \<le> lastLine cm \<longrightarrow>
              (\<forall>k. since_index since n (getLineTokens cm n) \<le> k \<and> k < length (getLineTokens cm n)
                   \<longrightarrow> \<not> holds cond (getLineTokens cm n ! k)))))"
proof (cases "seek (holds cond) tokens i1 < length tokens")
  case True
  then have "\<not> (\<forall>k. i1 \<le> k \<and> k < length tokens \<longrightarrow> \<not> holds cond (tokens ! k))"
    using seek_miss_iff [of "holds cond" tokens i1] by simp
  with findNext_current_hit [OF tokens si True, of cm] show ?thesis by simp
next
  case False
  then have cur: "\<forall>k. i1 \<le> k \<and> k < length tokens \<longrightarrow> \<not> holds cond (tokens ! k)"
    using seek_miss_iff [of "holds cond" tokens i1] by simp
  show ?thesis
  proof (cases "varg = Flag True")
    case nospan: False
    from findNext_current_only [OF tokens si False nospan, of cm] cur nospan
    show ?thesis by simp
  next
    case True
    let ?st0 = "\<lparr>s_lineNo = lineNo this, s_tokens = tokens,
               s_i_token = int (seek (holds cond) tokens i1), s_token = None, s_fetched = []\<rparr>"
    let ?st = "eachLine_list cm [startLine..lastLine cm] (visitLine cm cond since) ?st0"
    have after: "lineNo this < startLine" using sl by simp
    have unfold: "findNext cm cond varg since this =
       ((case s_token ?st of
             None \<Rightarrow> Inr None
           | Some t \<Rightarrow> Inr (Some \<lparr>found_lineNo = s_lineNo ?st, found_token = t,
                                  found_i_token = nat (s_i_token ?st)\<rparr>)),
          s_fetched ?st, this)"
      using findNext_span_unfold [OF tokens si [unfolded True] False, of cm] True
      unfolding sl by (simp add: Let_def)
    have "s_token ?st = None \<longleftrightarrow>
         (\<forall>n \<in> set [startLine..lastLine cm]. \<not> match_index cm cond since n < length (getLineTokens cm n))"
    proof (rule eachLine_list_none_iff)
      fix n assume "n \<in> set [startLine..lastLine cm]"
      with agree after show "own_number cm n" by simp
    qed simp
    also have "\<dots> \<longleftrightarrow> (\<forall>n. startLine \<le> n \<and> n \<le> lastLine cm \<longrightarrow>
              (\<forall>k. since_index since n (getLineTokens cm n) \<le> k \<and> k < length (getLineTokens cm n)
                   \<longrightarrow> \<not> holds cond (getLineTokens cm n ! k)))"
      by (auto simp: match_index_miss_iff)
    finally have iff: "s_token ?st = None \<longleftrightarrow> (\<forall>n. startLine \<le> n \<and> n \<le> lastLine cm \<longrightarrow>
              (\<forall>k. since_index since n (getLineTokens cm n) \<le> k \<and> k < length (getLineTokens cm n)
                   \<longrightarrow> \<not> holds cond (getLineTokens cm n ! k)))" .
    show ?thesis
    proof (cases "s_token ?st")
      case None
      with unfold iff cur True show ?thesis by simp
    next
      case (Some t)
      with unfold iff cur True show ?thesis by simp
    qed
  qed
qed

text \<open>
  Claim C8, corrected. On a positioned seeker, when the scan of the current line starts
  at an index \<open>i1\<close> that is not negative, \<open>findNext\<close> returns normally, and returns
  \<open>null\<close> exactly when no token satisfies the condition in the range searched: the current
  line from \<open>i1\<close> on and, with spanning enabled, the lines \<open>startLine, ..., lastLine\<close>, each
  from its own starting index. When the regular expression for \<open>style\<close> can be built,
  \<open>expandRange\<close> returns normally, and returns \<open>null\<close> exactly when every token of the line
  has \<open>end < pos.ch\<close>.
\<close>

theorem not_found_is_null:
  assumes "lineTokens this = Some tokens"
    and "start_index varg since (lineNo this) tokens (i_token this) = Inr (int i1)"
    and "\<forall>n. lineNo this < n \<and> n \<le> lastLine cm \<longrightarrow> own_number cm n"
    and "startLine = max (case since of None \<Rightarrow> 0 | Some p \<Rightarrow> line p) (lineNo this + 1)"
    and "styleRE style = Inr re"
  shows "(\<exists>res fetched. findNext cm cond varg since this = (Inr res, fetched, this) \<and>
     (res = None \<longleftrightarrow>
        (\<forall>k. i1 \<le> k \<and> k < length tokens \<longrightarrow> \<not> holds cond (tokens ! k)) \<and>
        (varg = Flag True \<longrightarrow>
           (\<forall>n. startLine \<le> n \<and> n \<le> lastLine cm \<longrightarrow>
              (\<forall>k. since_index since n (getLineTokens cm n) \<le> k \<and> k < length (getLineTokens cm n)
                   \<longrightarrow> \<not> holds cond (getLineTokens cm n ! k)))))) \<and>
    (\<exists>r. expandRange cm pos style = Inr r \<and>
           (r = None \<longleftrightarrow> (\<forall>t \<in> set (getLineTokens cm (line pos)). end_ch t < ch pos)))"
  using findNext_null_iff [OF assms(1-4)] expandRange_null_iff [OF assms(5)] by simp

theorem not_found_is_null_witness:
  "lineTokens (on_line0 0) = Some (example_lines 0) \<and>
   start_index Omitted None (lineNo (on_line0 0)) (example_lines 0) (i_token (on_line0 0)) = Inr 1 \<and>
   (\<exists>re. styleRE ''em'' = Inr re) \<and>
   findNext example_editor (re_char CHR ''z'') Omitted None (on_line0 0) = (Inr None, [], on_line0 0) \<and>
   expandRange example_editor \<lparr>line = 3, ch = 20\<rparr> ''em'' = Inr None"
proof -
  have h1: "lineTokens (on_line0 0) = Some (example_lines 0)" by (simp add: on_line0_def)
  have h2: "start_index Omitted None (lineNo (on_line0 0)) (example_lines 0) (i_token (on_line0 0)) = Inr (int 1)"
    by (simp add: start_index_def on_line0_def)
  have h3: "\<forall>n. lineNo (on_line0 0) < n \<and> n \<le> lastLine example_editor \<longrightarrow>
              own_number example_editor n"
    by (simp add: example_editor_def own_number_def on_line0_def)
  have h4: "(1::int) = max (case None of None \<Rightarrow> 0 | Some p \<Rightarrow> line p) (lineNo (on_line0 0) + 1)"
    by (simp add: on_line0_def)
  obtain re where h5: "styleRE ''em'' = Inr re" by (simp add: engine_simps)
  have none: "\<forall>k. 1 \<le> k \<and> k < length (example_lines 0) \<longrightarrow> \<not> holds (re_char CHR ''z'') (example_lines 0 ! k)"
    by (simp add: example_lines_def re_char_def tok_def to_string_def less_Suc_eq all_conj_distrib nth_Cons')
  have short: "\<forall>t \<in> set (getLineTokens example_editor (line \<lparr>line = 3, ch = 20\<rparr>)). end_ch t < ch \<lparr>line = 3, ch = 20\<rparr>"
    by (simp add: example_editor_def example_lines_def tok_def)
  from not_found_is_null [OF h1 h2 h3 h4 h5, of "re_char CHR ''z''" "\<lparr>line = 3, ch = 20\<rparr>"] none short
  obtain fetched where f: "findNext example_editor (re_char CHR ''z'') Omitted None (on_line0 0) = (Inr None, fetched, on_line0 0)"
    and e: "expandRange example_editor \<lparr>line = 3, ch = 20\<rparr> ''em'' = Inr None"
    by auto
  from none have miss: "\<not> seek (holds (re_char CHR ''z'')) (example_lines 0) 1 < length (example_lines 0)"
    by (rule seek_no_match)
  have "findNext example_editor (re_char CHR ''z'') Omitted None (on_line0 0) = (Inr None, [], on_line0 0)"
    by (rule findNext_current_only [OF h1 h2 miss]) simp
  with f have "fetched = []" by simp
  with f e h1 h2 h5 show ?thesis by simp
qed


end
